theory Spec2Isabelle
  imports Main "HOL-Library.AList"
begin

section \<open>Identifier allocation\<close>

text \<open>
  A JavaScript string is modelled as a \<^typ>\<open>string\<close>, one \<^typ>\<open>char\<close> per code unit.
  The regular expression \<^verbatim>\<open>/[^a-z0-9_]/gi\<close> has no \<^verbatim>\<open>u\<close> flag, so it matches code unit
  by code unit, and its class holds exactly the ASCII letters of both cases, the digits and
  the underscore.
\<close>

definition word_char :: "char \<Rightarrow> bool" where
  "word_char c \<longleftrightarrow>
     c \<in> set ''abcdefghijklmnopqrstuvwxyz'' \<or>
     c \<in> set ''ABCDEFGHIJKLMNOPQRSTUVWXYZ'' \<or>
     c \<in> set ''0123456789'' \<or>
     c = CHR ''_''"

text \<open>\<^verbatim>\<open>str.replace(/[^a-z0-9_]/gi, '_')\<close>\<close>

definition sanitize :: "string \<Rightarrow> string" where
  "sanitize str = map (\<lambda>c. if word_char c then c else CHR ''_'') str"

text \<open>
  The cache is a JavaScript \<^verbatim>\<open>Map\<close>: insertion ordered, \<^verbatim>\<open>get\<close> is \<^const>\<open>map_of\<close>,
  \<^verbatim>\<open>set\<close> is \<^const>\<open>AList.update\<close> (an existing key keeps its place, a new one goes last)
  and \<^verbatim>\<open>values()\<close> is \<open>map snd\<close>.
\<close>

type_synonym cache = "(string \<times> string) list"

text \<open>
  The collision loop of both allocators:
  \<^verbatim>\<open>while ([...cache.values()].some(val => val === name)) { name += '_'; }\<close>
  A run that never leaves the loop is the value \<open>None\<close>.
\<close>

partial_function (option) collision_loop :: "string list \<Rightarrow> string \<Rightarrow> string option" where
  "collision_loop vals name =
     (if list_ex (\<lambda>val. val = name) vals
      then collision_loop vals (name @ ''_'')
      else Some name)"

text \<open>\<^verbatim>\<open>globalExportsVariableName\<close> of \<^verbatim>\<open>bin/exby.js\<close>, with the module-level cache passed in
  and returned.\<close>

definition globalExportsVariableName :: "cache \<Rightarrow> string \<Rightarrow> (string \<times> cache) option" where
  "globalExportsVariableName varNameCache chunkFileName =
     (case map_of varNameCache chunkFileName of
        Some existing \<Rightarrow> Some (existing, varNameCache)
      | None \<Rightarrow>
          (case collision_loop (map snd varNameCache)
                  (''__EXBY_MODULE__'' @ sanitize chunkFileName @ ''__'') of
             None \<Rightarrow> None
           | Some name \<Rightarrow> Some (name, AList.update chunkFileName name varNameCache)))"

text \<open>
  The function returned by \<^verbatim>\<open>makeIdentifierGenerator(prefix, suffix)\<close> of
  \<^verbatim>\<open>src/babelPlugin.js\<close>, with its closed-over cache passed in and returned. The cache test
  is \<^verbatim>\<open>if (existing)\<close>: a cached empty string is falsy and counts as a miss.
\<close>

definition makeIdentifierGenerator ::
    "string \<Rightarrow> string \<Rightarrow> cache \<Rightarrow> string \<Rightarrow> (string \<times> cache) option" where
  "makeIdentifierGenerator prefix suffix uniqueIdentifierCache str =
     (case map_of uniqueIdentifierCache str of
        Some (c # cs) \<Rightarrow> Some (c # cs, uniqueIdentifierCache)
      | _ \<Rightarrow>
          (case collision_loop (map snd uniqueIdentifierCache)
                  (prefix @ sanitize str @ suffix) of
             None \<Rightarrow> None
           | Some uid \<Rightarrow> Some (uid, AList.update str uid uniqueIdentifierCache)))"

text \<open>A build calls an allocator on one key after another, each call on the cache the
  previous one left; the names are returned in call order.\<close>

fun allocate_all ::
    "(cache \<Rightarrow> string \<Rightarrow> (string \<times> cache) option) \<Rightarrow> cache \<Rightarrow> string list
      \<Rightarrow> (string list \<times> cache) option" where
  "allocate_all alloc c [] = Some ([], c)"
| "allocate_all alloc c (k # ks) =
     (case alloc c k of
        None \<Rightarrow> None
      | Some (name, c') \<Rightarrow>
          (case allocate_all alloc c' ks of
             None \<Rightarrow> None
           | Some (names, c'') \<Rightarrow> Some (name # names, c'')))"

text \<open>
  What one allocator call does to the cache, for an allocator with prefix \<open>P\<close> and suffix
  \<open>S\<close>: a cached key returns its name and leaves the cache alone; a new key gets the derived
  name followed by some underscores, a name no key holds yet, and is stored under it.
\<close>

definition alloc_step :: "string \<Rightarrow> string \<Rightarrow> cache \<Rightarrow> string \<Rightarrow> string \<Rightarrow> cache \<Rightarrow> bool" where
  "alloc_step P S c k n c' \<longleftrightarrow>
     (map_of c k = Some n \<and> c' = c) \<or>
     (map_of c k = None \<and>
      (\<exists>j \<le> length c. n = P @ sanitize k @ S @ replicate j (CHR ''_'')) \<and>
      n \<notin> snd ` set c \<and> c' = AList.update k n c)"

text \<open>The caches a build can reach: no key twice, no name twice, every name derived from
  its key.\<close>

definition cache_inv :: "string \<Rightarrow> string \<Rightarrow> cache \<Rightarrow> bool" where
  "cache_inv P S c \<longleftrightarrow>
     distinct (map fst c) \<and> distinct (map snd c) \<and>
     (\<forall>(k, v) \<in> set c. \<exists>j. v = P @ sanitize k @ S @ replicate j (CHR ''_''))"

section \<open>Load order\<close>

text \<open>
  The output of Rollup's \<^verbatim>\<open>generate\<close> is an array of chunks and assets. Of a chunk the
  build reads \<^verbatim>\<open>fileName\<close>, \<^verbatim>\<open>imports\<close>, \<^verbatim>\<open>exports\<close>, \<^verbatim>\<open>facadeModuleId\<close> (null when the
  chunk is no entry) and \<^verbatim>\<open>code\<close>; an asset has a \<^verbatim>\<open>fileName\<close> and none of the others.
\<close>

record chunk =
  fileName :: string
  "imports" :: "string list"
  exports :: "string list"
  facadeModuleId :: "string option"
  code :: string

datatype output_item = OutputChunk chunk | OutputAsset string

fun item_fileName :: "output_item \<Rightarrow> string" where
  "item_fileName (OutputChunk c) = fileName c"
| "item_fileName (OutputAsset f) = f"

fun item_facadeModuleId :: "output_item \<Rightarrow> string option" where
  "item_facadeModuleId (OutputChunk c) = facadeModuleId c"
| "item_facadeModuleId (OutputAsset f) = None"

datatype js_error = TypeError | ReferenceError string | Error string

text \<open>
  \<^verbatim>\<open>array.map(callback)\<close> where the callback may throw or not return: the calls run from
  left to right and the first one that does not return a value ends the whole.
\<close>

fun map_results :: "(js_error + 'a) option list \<Rightarrow> (js_error + 'a list) option" where
  "map_results [] = Some (Inr [])"
| "map_results (None # rs) = None"
| "map_results (Some (Inl e) # rs) = Some (Inl e)"
| "map_results (Some (Inr x) # rs) =
     (case map_results rs of
        None \<Rightarrow> None
      | Some (Inl e) \<Rightarrow> Some (Inl e)
      | Some (Inr xs) \<Rightarrow> Some (Inr (x # xs)))"

text \<open>
  \<^verbatim>\<open>flatImportList\<close>. The recursion has no guard against a cycle, so the model counts the
  nesting depth down: \<open>None\<close> is a recursion deeper than the fuel. The argument is the result
  of \<^verbatim>\<open>Array.prototype.find\<close>, \<open>None\<close> for \<^verbatim>\<open>undefined\<close>. \<^verbatim>\<open>find\<close> compares file names only,
  so it may return an asset, whose \<^verbatim>\<open>imports\<close> is undefined: calling \<^verbatim>\<open>map\<close> on it throws.
\<close>

fun flatImportList ::
    "nat \<Rightarrow> output_item list \<Rightarrow> output_item option \<Rightarrow> (js_error + string list) option" where
  "flatImportList fuel codeSplitOutput None = Some (Inr [])"
| "flatImportList fuel codeSplitOutput (Some (OutputAsset f)) = Some (Inl TypeError)"
| "flatImportList 0 codeSplitOutput (Some (OutputChunk chunk)) = None"
| "flatImportList (Suc fuel) codeSplitOutput (Some (OutputChunk chunk)) =
     (case map_results
             (map (\<lambda>importee. flatImportList fuel codeSplitOutput
                      (find (\<lambda>c. item_fileName c = importee) codeSplitOutput))
                (imports chunk)) of
        None \<Rightarrow> None
      | Some (Inl e) \<Rightarrow> Some (Inl e)
      | Some (Inr nestedImports) \<Rightarrow> Some (Inr (concat nestedImports @ [fileName chunk])))"

text \<open>One entry of \<^verbatim>\<open>dependencyMap\<close>: the entry chunk is the first item whose
  \<^verbatim>\<open>facadeModuleId\<close> is the entry's module id.\<close>

definition dependencyMap_entry ::
    "nat \<Rightarrow> output_item list \<Rightarrow> string \<Rightarrow> (js_error + string list) option" where
  "dependencyMap_entry fuel codeSplitOutput entryModuleID =
     flatImportList fuel codeSplitOutput
       (find (\<lambda>chunk. item_facadeModuleId chunk = Some entryModuleID) codeSplitOutput)"

section \<open>Manifest rewrite\<close>

text \<open>\<^verbatim>\<open>arr.indexOf(val)\<close>: the first index holding \<open>val\<close>, or \<open>-1\<close>.\<close>

fun indexOf :: "string list \<Rightarrow> string \<Rightarrow> int" where
  "indexOf [] val = - 1"
| "indexOf (x # xs) val =
     (if x = val then 0 else (let r = indexOf xs val in if r < 0 then - 1 else r + 1))"

text \<open>\<^verbatim>\<open>arr.filter((val, i, arr) => arr.indexOf(val) === i)\<close>\<close>

definition filter_first_index :: "string list \<Rightarrow> string list" where
  "filter_first_index arr =
     map fst (filter (\<lambda>(val, i). indexOf arr val = int i) (zip arr [0 ..< length arr]))"

text \<open>
  The loop \<^verbatim>\<open>for (let i = js.length - 1; i >= 0; i -= 1) js.splice(i, 1, ...dependencyMap[js[i]])\<close>;
  the first argument counts the indices still to visit, so the index visited is one less.
  A path that \<^verbatim>\<open>dependencyMap\<close> does not hold reads \<^verbatim>\<open>undefined\<close>, and spreading that throws.
  An index past the end would read \<^verbatim>\<open>undefined\<close>, which as a property key is the string
  \<^verbatim>\<open>undefined\<close>, and \<^verbatim>\<open>splice\<close> would then append.
\<close>

fun splice_loop ::
    "(string \<rightharpoonup> string list) \<Rightarrow> nat \<Rightarrow> string list \<Rightarrow> js_error + string list" where
  "splice_loop dependencyMap 0 js = Inr js"
| "splice_loop dependencyMap (Suc i) js =
     (case dependencyMap (if i < length js then js ! i else ''undefined'') of
        None \<Rightarrow> Inl TypeError
      | Some deps \<Rightarrow> splice_loop dependencyMap i (take i js @ deps @ drop (Suc i) js))"

text \<open>What the build does to one script list of the manifest (the \<^verbatim>\<open>js\<close> of a content
  script, or \<^verbatim>\<open>background.scripts\<close>).\<close>

definition rewrite_script_list ::
    "(string \<rightharpoonup> string list) \<Rightarrow> string list \<Rightarrow> js_error + string list" where
  "rewrite_script_list dependencyMap js =
     (case splice_loop dependencyMap (length js) js of
        Inl e \<Rightarrow> Inl e
      | Inr js' \<Rightarrow> Inr (filter_first_index js'))"

text \<open>
  The import graph as \<^verbatim>\<open>flatImportList\<close> walks it: \<open>a\<close> imports \<open>b\<close> when the item that
  \<^verbatim>\<open>find\<close> returns for the file name \<open>a\<close> is a chunk with \<open>b\<close> among its imports.
\<close>

definition import_edges :: "output_item list \<Rightarrow> (string \<times> string) set" where
  "import_edges g =
     {(a, b). \<exists>c. find (\<lambda>i. item_fileName i = a) g = Some (OutputChunk c) \<and> b \<in> set (imports c)}"

text \<open>Keeping the first occurrence of every element, with the set of elements seen so far.\<close>

fun keep_first :: "'a set \<Rightarrow> 'a list \<Rightarrow> 'a list" where
  "keep_first seen [] = []"
| "keep_first seen (x # xs) =
     (if x \<in> seen then keep_first seen xs else x # keep_first (insert x seen) xs)"

text \<open>
  A well-formed chunk graph: file names are unique, and no import of a chunk names an asset.
  An import may name a file that is not in the output (an external module).
\<close>

definition chunk_graph :: "output_item list \<Rightarrow> bool" where
  "chunk_graph g \<longleftrightarrow>
     distinct (map item_fileName g) \<and>
     (\<forall>item \<in> set g.
        case item of
          OutputAsset f \<Rightarrow> True
        | OutputChunk c \<Rightarrow> \<forall>b \<in> set (imports c). OutputAsset b \<notin> set g)"

text \<open>
  Dependencies first: going through the list from the left, with the set of names already
  passed, every name that an element imports (along \<open>E\<close>) and that is present (in \<open>R\<close>) has
  been passed before the element.
\<close>

fun deps_first :: "('a \<times> 'a) set \<Rightarrow> 'a set \<Rightarrow> 'a set \<Rightarrow> 'a list \<Rightarrow> bool" where
  "deps_first E R seen [] \<longleftrightarrow> True"
| "deps_first E R seen (x # xs) \<longleftrightarrow>
     (\<forall>b. (x, b) \<in> E \<and> b \<in> R \<longrightarrow> b \<in> seen) \<and> deps_first E R (insert x seen) xs"

text \<open>
  The example of the comment in \<^verbatim>\<open>bin/exby.js\<close>: entry \<^verbatim>\<open>a.js\<close> imports \<^verbatim>\<open>c.js\<close> and
  \<^verbatim>\<open>d.js\<close>, which both import \<^verbatim>\<open>e.js\<close>.
\<close>

definition mk_chunk :: "string \<Rightarrow> string list \<Rightarrow> string option \<Rightarrow> chunk" where
  "mk_chunk f is m = \<lparr>fileName = f, imports = is, exports = [], facadeModuleId = m, code = []\<rparr>"

definition diamond :: "output_item list" where
  "diamond =
     [OutputChunk (mk_chunk ''a.js'' [''c.js'', ''d.js''] (Some ''/src/a.js'')),
      OutputChunk (mk_chunk ''c.js'' [''e.js''] None),
      OutputChunk (mk_chunk ''d.js'' [''e.js''] None),
      OutputChunk (mk_chunk ''e.js'' [] None)]"

section \<open>The output of one chunk\<close>

text \<open>
  The end of the loop body over the chunks in \<^verbatim>\<open>bin/exby.js\<close>, after the IIFE build of the
  chunk:
  \<^verbatim>\<open>if (iifeOutput.length !== 1) {
    throw new Error(`IIFE build of ${chunkId} generated ${iifeOutput.length} outputs`); }
  outputFiles[chunk.fileName] = iifeOutput[0].code;\<close>
  No binding named \<^verbatim>\<open>chunkId\<close> exists in the file (the loop variable is \<^verbatim>\<open>chunk\<close>, the plugin
  hooks name their parameter \<^verbatim>\<open>id\<close>), so evaluating the template literal throws a
  \<^verbatim>\<open>ReferenceError\<close> before the \<^verbatim>\<open>Error\<close> is constructed. An asset has no \<^verbatim>\<open>code\<close>: reading it
  gives \<^verbatim>\<open>undefined\<close>, here \<open>None\<close>.
\<close>

fun item_code :: "output_item \<Rightarrow> string option" where
  "item_code (OutputChunk c) = Some (code c)"
| "item_code (OutputAsset f) = None"

definition store_iife_output ::
    "(string \<rightharpoonup> string option) \<Rightarrow> chunk \<Rightarrow> output_item list
      \<Rightarrow> js_error + (string \<rightharpoonup> string option)" where
  "store_iife_output outputFiles chunk iifeOutput =
     (if length iifeOutput \<noteq> 1
      then Inl (ReferenceError ''chunkId is not defined'')
      else Inr (outputFiles(fileName chunk \<mapsto> item_code (hd iifeOutput))))"

section \<open>The Babel plugin\<close>

text \<open>
  The two argument templates of \<^verbatim>\<open>src/babelPlugin.js\<close> are expressions over the global object
  (\<^verbatim>\<open>this\<close> at the top level of a script): a property read, an empty object literal, \<^verbatim>\<open>||\<close>
  and an assignment to a property. Values are \<^verbatim>\<open>undefined\<close>, \<^verbatim>\<open>null\<close>, booleans, strings and
  references to objects (numbers are left out); a missing property reads as \<^verbatim>\<open>undefined\<close>; an
  object literal allocates the next free reference.
\<close>

datatype js_value = Undefined | Null | Boolean bool | String string | Object nat

fun truthy :: "js_value \<Rightarrow> bool" where
  "truthy Undefined = False"
| "truthy Null = False"
| "truthy (Boolean b) = b"
| "truthy (String s) = (s \<noteq> [])"
| "truthy (Object r) = True"

datatype js_expr =
    ThisMember string
  | ObjectLiteral
  | LogicalOr js_expr js_expr
  | AssignThisMember string js_expr

record js_state =
  this_props :: "string \<rightharpoonup> js_value"
  next_object :: nat

fun eval_expr :: "js_expr \<Rightarrow> js_state \<Rightarrow> js_value \<times> js_state" where
  "eval_expr (ThisMember n) s = (case this_props s n of None \<Rightarrow> Undefined | Some v \<Rightarrow> v, s)"
| "eval_expr ObjectLiteral s = (Object (next_object s), s\<lparr>next_object := Suc (next_object s)\<rparr>)"
| "eval_expr (LogicalOr a b) s =
     (case eval_expr a s of (v, s') \<Rightarrow> if truthy v then (v, s') else eval_expr b s')"
| "eval_expr (AssignThisMember n e) s =
     (case eval_expr e s of (v, s') \<Rightarrow> (v, s'\<lparr>this_props := (this_props s')(n \<mapsto> v)\<rparr>))"

text \<open>\<^verbatim>\<open>this.MODULE_ID = this.MODULE_ID || {}\<close>\<close>

definition exportArgumentTemplate :: "string \<Rightarrow> js_expr" where
  "exportArgumentTemplate MODULE_ID =
     AssignThisMember MODULE_ID (LogicalOr (ThisMember MODULE_ID) ObjectLiteral)"






section \<open>Validity of identifiers\<close>

text \<open>
  A valid identifier, on the ASCII part of the ECMAScript grammar: an identifier start
  (letter, \<open>$\<close> or \<open>_\<close>), then identifier parts (the same or a digit), and not one of the
  reserved words (those of strict mode included).
\<close>

definition ident_start :: "char \<Rightarrow> bool" where
  "ident_start c \<longleftrightarrow>
     c \<in> set ''abcdefghijklmnopqrstuvwxyz'' \<or>
     c \<in> set ''ABCDEFGHIJKLMNOPQRSTUVWXYZ'' \<or>
     c = CHR ''$'' \<or> c = CHR ''_''"

definition ident_part :: "char \<Rightarrow> bool" where
  "ident_part c \<longleftrightarrow> ident_start c \<or> c \<in> set ''0123456789''"

definition reserved_words :: "string list" where
  "reserved_words =
     [''await'', ''break'', ''case'', ''catch'', ''class'', ''const'', ''continue'',
      ''debugger'', ''default'', ''delete'', ''do'', ''else'', ''enum'', ''export'',
      ''extends'', ''false'', ''finally'', ''for'', ''function'', ''if'', ''import'', ''in'',
      ''instanceof'', ''new'', ''null'', ''return'', ''super'', ''switch'', ''this'', ''throw'',
      ''true'', ''try'', ''typeof'', ''var'', ''void'', ''while'', ''with'', ''yield'',
      ''let'', ''static'', ''implements'', ''interface'', ''package'', ''private'',
      ''protected'', ''public'', ''arguments'', ''eval'']"

definition valid_identifier :: "string \<Rightarrow> bool" where
  "valid_identifier s \<longleftrightarrow>
     s \<noteq> [] \<and> ident_start (hd s) \<and> list_all ident_part (tl s) \<and> s \<notin> set reserved_words"

section \<open>The collision loop ends\<close>

lemma collision_loop_steps:
  "\<exists>k \<le> card {v \<in> set vals. length name \<le> length v}.
     collision_loop vals name = Some (name @ replicate k (CHR ''_'')) \<and>
     name @ replicate k (CHR ''_'') \<notin> set vals"
proof (induction "card {v \<in> set vals. length name \<le> length v}" arbitrary: name rule: less_induct)
  case less
  show ?case
  proof (cases "name \<in> set vals")
    case False
    then have "collision_loop vals name = Some name"
      by (subst collision_loop.simps) (simp add: list_ex_iff)
    with False show ?thesis by (intro exI[of _ 0]) simp
  next
    case True
    let ?A = "{v \<in> set vals. length name \<le> length v}"
    let ?B = "{v \<in> set vals. length (name @ ''_'') \<le> length v}"
    have "?B \<subseteq> ?A - {name}" by auto
    moreover have "finite ?A" by simp
    ultimately have "card ?B \<le> card (?A - {name})"
      by (meson card_mono finite_Diff)
    moreover have "name \<in> ?A" using True by simp
    then have "card (?A - {name}) < card ?A"
      by (intro card_Diff1_less) simp_all
    ultimately have lt: "card ?B < card ?A" by simp
    from less[OF lt] obtain k where k: "k \<le> card ?B"
      "collision_loop vals (name @ ''_'') = Some ((name @ ''_'') @ replicate k (CHR ''_''))"
      "(name @ ''_'') @ replicate k (CHR ''_'') \<notin> set vals"
      by blast
    have step: "collision_loop vals name = collision_loop vals (name @ ''_'')"
      using True by (subst collision_loop.simps) (simp add: list_ex_iff)
    have eq: "(name @ ''_'') @ replicate k (CHR ''_'') = name @ replicate (Suc k) (CHR ''_'')"
      by simp
    show ?thesis
      using k lt step unfolding eq by (intro exI[of _ "Suc k"]) simp
  qed
qed

lemma collision_loop_bound:
  "\<exists>j \<le> length vals.
     collision_loop vals name = Some (name @ replicate j (CHR ''_'')) \<and>
     name @ replicate j (CHR ''_'') \<notin> set vals"
proof -
  have "card {v \<in> set vals. length name \<le> length v} \<le> card (set vals)"
    by (intro card_mono) auto
  also have "\<dots> \<le> length vals" by (rule card_length)
  finally show ?thesis
    using collision_loop_steps[of vals name] by (meson order_trans)
qed

lemma collision_loop_unused:
  "name \<notin> set vals \<Longrightarrow> collision_loop vals name = Some name"
  by (subst collision_loop.simps) (simp add: list_ex_iff)

section \<open>One allocator call\<close>

lemma globalExportsVariableName_step:
  "\<exists>n c'. globalExportsVariableName c k = Some (n, c') \<and>
     alloc_step ''__EXBY_MODULE__'' ''__'' c k n c'"
proof (cases "map_of c k")
  case (Some e)
  then show ?thesis
    by (simp add: globalExportsVariableName_def alloc_step_def)
next
  case None
  obtain j where j: "j \<le> length (map snd c)"
    "collision_loop (map snd c) (''__EXBY_MODULE__'' @ sanitize k @ ''__'') =
       Some ((''__EXBY_MODULE__'' @ sanitize k @ ''__'') @ replicate j (CHR ''_''))"
    "(''__EXBY_MODULE__'' @ sanitize k @ ''__'') @ replicate j (CHR ''_'') \<notin> set (map snd c)"
    using collision_loop_bound by blast
  from j(1) have "j \<le> length c" by simp
  with None j(2,3) show ?thesis
    unfolding globalExportsVariableName_def alloc_step_def
    by (auto simp del: replicate.simps)
qed

lemma makeIdentifierGenerator_step:
  assumes "[] \<notin> snd ` set c"
  shows "\<exists>n c'. makeIdentifierGenerator P S c k = Some (n, c') \<and> alloc_step P S c k n c'"
proof (cases "map_of c k")
  case (Some e)
  then have "(k, e) \<in> set c" by (rule map_of_SomeD)
  then have "e \<noteq> []" using assms by force
  then obtain x xs where "e = x # xs" by (cases e) auto
  with Some show ?thesis
    by (simp add: makeIdentifierGenerator_def alloc_step_def)
next
  case None
  obtain j where j: "j \<le> length (map snd c)"
    "collision_loop (map snd c) (P @ sanitize k @ S) =
       Some ((P @ sanitize k @ S) @ replicate j (CHR ''_''))"
    "(P @ sanitize k @ S) @ replicate j (CHR ''_'') \<notin> set (map snd c)"
    using collision_loop_bound by blast
  from j(1) have "j \<le> length c" by simp
  with None j(2,3) show ?thesis
    unfolding makeIdentifierGenerator_def alloc_step_def
    by (auto simp del: replicate.simps)
qed

lemma update_new_key:
  "k \<notin> fst ` set c \<Longrightarrow> AList.update k v c = c @ [(k, v)]"
  by (induction c) auto

lemma alloc_step_binds: "alloc_step P S c k n c' \<Longrightarrow> map_of c' k = Some n"
  by (auto simp: alloc_step_def AList.update_conv')

lemma alloc_step_keeps:
  "alloc_step P S c k n c' \<Longrightarrow> map_of c k' = Some v \<Longrightarrow> map_of c' k' = Some v"
  by (auto simp: alloc_step_def AList.update_conv')

lemma alloc_step_inv:
  assumes "alloc_step P S c k n c'" and "cache_inv P S c"
  shows "cache_inv P S c'"
proof -
  from assms(1) consider (hit) "c' = c"
    | (miss) j where "map_of c k = None" "n = P @ sanitize k @ S @ replicate j (CHR ''_'')"
        "n \<notin> snd ` set c" "c' = AList.update k n c"
    unfolding alloc_step_def by blast
  then show ?thesis
  proof cases
    case hit
    with assms(2) show ?thesis by simp
  next
    case miss
    from miss(1) have "k \<notin> fst ` set c" by (simp add: map_of_eq_None_iff)
    then have c': "c' = c @ [(k, n)]" using miss(4) by (simp add: update_new_key)
    show ?thesis
      using assms(2) miss(2,3) \<open>k \<notin> fst ` set c\<close> unfolding c' cache_inv_def
      by (auto simp del: replicate.simps)
  qed
qed

lemma alloc_step_nonempty:
  "alloc_step P S c k n c' \<Longrightarrow> P \<noteq> [] \<Longrightarrow> [] \<notin> snd ` set c \<Longrightarrow> [] \<notin> snd ` set c'"
  by (auto simp: alloc_step_def map_of_eq_None_iff update_new_key)

lemma cache_inv_inj:
  assumes "cache_inv P S c" "map_of c k1 = Some n" "map_of c k2 = Some n"
  shows "k1 = k2"
proof -
  have "(k1, n) \<in> set c" "(k2, n) \<in> set c"
    using assms(2,3) by (auto dest: map_of_SomeD)
  moreover have "inj_on snd (set c)"
    using assms(1) by (simp add: cache_inv_def distinct_map)
  ultimately have "(k1, n) = (k2, n)"
    by (intro inj_onD[of snd "set c"]) simp_all
  then show ?thesis by simp
qed

section \<open>A sequence of allocator calls\<close>

lemma allocate_all_inv:
  assumes spec: "\<And>c k. [] \<notin> snd ` set c \<Longrightarrow>
      \<exists>n c'. alloc c k = Some (n, c') \<and> alloc_step P S c k n c'"
    and P: "P \<noteq> []"
    and inv: "cache_inv P S c" and ne: "[] \<notin> snd ` set c"
  shows "\<exists>ns c'. allocate_all alloc c ks = Some (ns, c') \<and> cache_inv P S c' \<and>
           [] \<notin> snd ` set c' \<and> length ns = length ks \<and>
           (\<forall>i < length ks. map_of c' (ks ! i) = Some (ns ! i)) \<and>
           (\<forall>k v. map_of c k = Some v \<longrightarrow> map_of c' k = Some v)"
  using inv ne
proof (induction ks arbitrary: c)
  case Nil
  then show ?case by simp
next
  case (Cons k ks)
  from spec[OF Cons.prems(2)] obtain n c1
    where a: "alloc c k = Some (n, c1)" and st: "alloc_step P S c k n c1"
    by blast
  have inv1: "cache_inv P S c1" using st Cons.prems(1) by (rule alloc_step_inv)
  have ne1: "[] \<notin> snd ` set c1" using st P Cons.prems(2) by (rule alloc_step_nonempty)
  from Cons.IH[OF inv1 ne1] obtain ns c2
    where r: "allocate_all alloc c1 ks = Some (ns, c2)" "cache_inv P S c2"
      "[] \<notin> snd ` set c2" "length ns = length ks"
      "\<forall>i < length ks. map_of c2 (ks ! i) = Some (ns ! i)"
      "\<forall>k v. map_of c1 k = Some v \<longrightarrow> map_of c2 k = Some v"
    by blast
  have k: "map_of c2 k = Some n" using r(6) alloc_step_binds[OF st] by blast
  have idx: "\<forall>i < length (k # ks). map_of c2 ((k # ks) ! i) = Some ((n # ns) ! i)"
  proof (intro allI impI)
    fix i assume "i < length (k # ks)"
    then show "map_of c2 ((k # ks) ! i) = Some ((n # ns) ! i)"
      using k r(5) by (cases i) auto
  qed
  have keep: "\<forall>k' v. map_of c k' = Some v \<longrightarrow> map_of c2 k' = Some v"
    using r(6) alloc_step_keeps[OF st] by blast
  have "allocate_all alloc c (k # ks) = Some (n # ns, c2)"
    using a r(1) by simp
  with r(2,3,4) idx keep show ?case by simp
qed

lemma cache_inv_empty: "cache_inv P S []"
  by (simp add: cache_inv_def)

lemma reserved_words_start: "\<forall>w \<in> set reserved_words. hd w \<noteq> CHR ''_''"
  by (simp add: reserved_words_def)

lemma word_char_ident_part: "word_char c \<Longrightarrow> ident_part c"
  by (auto simp: word_char_def ident_part_def ident_start_def)

lemma underscore_name_valid:
  assumes "n \<noteq> []" "hd n = CHR ''_''" "list_all word_char n"
  shows "valid_identifier n"
proof -
  obtain x xs where n: "n = x # xs" using assms(1) by (cases n) auto
  have "n \<notin> set reserved_words" using reserved_words_start assms(2) by blast
  moreover have "list_all ident_part (tl n)"
    using assms(3) n by (auto simp: list_all_iff word_char_ident_part)
  moreover have "ident_start (hd n)" using assms(2) by (simp add: ident_start_def)
  ultimately show ?thesis using assms(1) by (simp add: valid_identifier_def)
qed

lemma word_char_underscore: "word_char (CHR ''_'')"
  by (simp add: word_char_def)

lemma word_char_sanitize: "list_all word_char (sanitize k)"
  by (induction k) (simp_all add: sanitize_def word_char_underscore)

lemma derived_name_valid:
  assumes "P \<noteq> []" "hd P = CHR ''_''" "list_all word_char P" "list_all word_char S"
  shows "valid_identifier (P @ sanitize k @ S @ replicate j (CHR ''_''))"
proof (rule underscore_name_valid)
  show "P @ sanitize k @ S @ replicate j (CHR ''_'') \<noteq> []" using assms(1) by simp
  show "hd (P @ sanitize k @ S @ replicate j (CHR ''_'')) = CHR ''_''"
    using assms(1,2) by simp
  have "list_all word_char (replicate j (CHR ''_''))"
    by (simp add: list_all_iff word_char_underscore)
  then show "list_all word_char (P @ sanitize k @ S @ replicate j (CHR ''_''))"
    using assms(3,4) word_char_sanitize[of k] by simp
qed

lemma cache_inv_valid:
  assumes "cache_inv P S c" "map_of c k = Some n"
    and "P \<noteq> []" "hd P = CHR ''_''" "list_all word_char P" "list_all word_char S"
  shows "valid_identifier n"
proof -
  have "(k, n) \<in> set c" using assms(2) by (rule map_of_SomeD)
  then obtain j where "n = P @ sanitize k @ S @ replicate j (CHR ''_'')"
    using assms(1) unfolding cache_inv_def by blast
  then show ?thesis using derived_name_valid[OF assms(3-6)] by simp
qed

lemma allocate_all_distinct_valid:
  assumes spec: "\<And>c k. [] \<notin> snd ` set c \<Longrightarrow>
      \<exists>n c'. alloc c k = Some (n, c') \<and> alloc_step P S c k n c'"
    and P: "P \<noteq> []" "hd P = CHR ''_''" "list_all word_char P" and S: "list_all word_char S"
  shows "\<exists>ns c. allocate_all alloc [] ks = Some (ns, c) \<and> length ns = length ks \<and>
           (\<forall>i < length ks. \<forall>j < length ks. ks ! i \<noteq> ks ! j \<longrightarrow> ns ! i \<noteq> ns ! j) \<and>
           (\<forall>n \<in> set ns. valid_identifier n)"
proof -
  from allocate_all_inv[of alloc P S "[]" ks, OF spec P(1) cache_inv_empty]
  obtain ns c where r: "allocate_all alloc [] ks = Some (ns, c)" "cache_inv P S c"
      "length ns = length ks" "\<forall>i < length ks. map_of c (ks ! i) = Some (ns ! i)"
    by auto
  have d: "\<forall>i < length ks. \<forall>j < length ks. ks ! i \<noteq> ks ! j \<longrightarrow> ns ! i \<noteq> ns ! j"
    using r(4) cache_inv_inj[OF r(2)] by metis
  have v: "\<forall>n \<in> set ns. valid_identifier n"
  proof
    fix n assume "n \<in> set ns"
    then obtain i where "i < length ns" "n = ns ! i" by (metis in_set_conv_nth)
    then have "map_of c (ks ! i) = Some n" using r(3,4) by simp
    then show "valid_identifier n" using cache_inv_valid[OF r(2) _ P S] by blast
  qed
  from r(1,3) d v show ?thesis by blast
qed

lemma allocate_all_derived:
  assumes hit: "\<And>c k n. map_of c k = Some n \<Longrightarrow> n \<noteq> [] \<Longrightarrow> alloc c k = Some (n, c)"
    and fresh: "\<And>c k. map_of c k = None \<Longrightarrow> P @ sanitize k @ S \<notin> snd ` set c \<Longrightarrow>
        alloc c k = Some (P @ sanitize k @ S, AList.update k (P @ sanitize k @ S) c)"
    and inj: "inj_on sanitize K"
    and ne: "\<forall>k \<in> K. P @ sanitize k @ S \<noteq> []"
    and ks: "set ks \<subseteq> K"
    and c: "\<forall>(k, v) \<in> set c. k \<in> K \<and> v = P @ sanitize k @ S"
  shows "\<exists>c'. allocate_all alloc c ks = Some (map (\<lambda>k. P @ sanitize k @ S) ks, c')"
  using ks c
proof (induction ks arbitrary: c)
  case Nil
  then show ?case by simp
next
  case (Cons k ks)
  let ?d = "P @ sanitize k @ S"
  have kK: "k \<in> K" and ksK: "set ks \<subseteq> K" using Cons.prems(1) by auto
  have "\<exists>c1. alloc c k = Some (?d, c1) \<and> (\<forall>(k, v) \<in> set c1. k \<in> K \<and> v = P @ sanitize k @ S)"
  proof (cases "map_of c k")
    case (Some n)
    then have "(k, n) \<in> set c" by (rule map_of_SomeD)
    then have n: "n = ?d" using Cons.prems(2) by blast
    then have "n \<noteq> []" using ne kK by blast
    from hit[OF Some this] n Cons.prems(2) show ?thesis by blast
  next
    case None
    then have knew: "k \<notin> fst ` set c" by (simp add: map_of_eq_None_iff)
    have "?d \<notin> snd ` set c"
    proof
      assume "?d \<in> snd ` set c"
      then obtain k' where k': "(k', ?d) \<in> set c" by force
      then have "k' \<in> K" "?d = P @ sanitize k' @ S" using Cons.prems(2) by blast+
      then have "k' = k" using inj kK by (simp add: inj_on_eq_iff)
      with k' knew show False by force
    qed
    from fresh[OF None this] Cons.prems(2) kK knew show ?thesis
      by (auto simp: update_new_key)
  qed
  then obtain c1 where a: "alloc c k = Some (?d, c1)"
    and c1: "\<forall>(k, v) \<in> set c1. k \<in> K \<and> v = P @ sanitize k @ S"
    by blast
  from Cons.IH[OF ksK c1] obtain c2
    where "allocate_all alloc c1 ks = Some (map (\<lambda>k. P @ sanitize k @ S) ks, c2)"
    by blast
  with a show ?case by simp
qed

lemma globalExportsVariableName_hit:
  "map_of c k = Some n \<Longrightarrow> globalExportsVariableName c k = Some (n, c)"
  by (simp add: globalExportsVariableName_def)

lemma globalExportsVariableName_fresh:
  assumes "map_of c k = None" "''__EXBY_MODULE__'' @ sanitize k @ ''__'' \<notin> snd ` set c"
  shows "globalExportsVariableName c k =
    Some (''__EXBY_MODULE__'' @ sanitize k @ ''__'',
          AList.update k (''__EXBY_MODULE__'' @ sanitize k @ ''__'') c)"
proof -
  have "collision_loop (map snd c) (''__EXBY_MODULE__'' @ sanitize k @ ''__'') =
      Some (''__EXBY_MODULE__'' @ sanitize k @ ''__'')"
    using assms(2) by (intro collision_loop_unused) simp
  with assms(1) show ?thesis by (simp add: globalExportsVariableName_def)
qed

lemma makeIdentifierGenerator_hit:
  "map_of c k = Some n \<Longrightarrow> n \<noteq> [] \<Longrightarrow> makeIdentifierGenerator P S c k = Some (n, c)"
  by (cases n) (simp_all add: makeIdentifierGenerator_def)

lemma makeIdentifierGenerator_fresh:
  assumes "map_of c k = None" "P @ sanitize k @ S \<notin> snd ` set c"
  shows "makeIdentifierGenerator P S c k =
    Some (P @ sanitize k @ S, AList.update k (P @ sanitize k @ S) c)"
proof -
  have "collision_loop (map snd c) (P @ sanitize k @ S) = Some (P @ sanitize k @ S)"
    using assms(2) by (intro collision_loop_unused) simp
  with assms(1) show ?thesis by (simp add: makeIdentifierGenerator_def)
qed

lemma makeIdentifierGenerator_total:
  "\<exists>n c'. makeIdentifierGenerator P S c k = Some (n, c')"
proof -
  obtain j where "collision_loop (map snd c) (P @ sanitize k @ S) =
      Some ((P @ sanitize k @ S) @ replicate j (CHR ''_''))"
    using collision_loop_bound by blast
  then show ?thesis
    by (simp add: makeIdentifierGenerator_def split: option.splits list.splits)
qed

lemma makeIdentifierGenerator_result:
  assumes "makeIdentifierGenerator P S c k = Some (n, c')" "k \<noteq> []"
  shows "n \<noteq> [] \<and> map_of c' k = Some n"
proof -
  have s: "sanitize k \<noteq> []" using assms(2) by (simp add: sanitize_def)
  obtain j where j: "collision_loop (map snd c) (P @ sanitize k @ S) =
      Some ((P @ sanitize k @ S) @ replicate j (CHR ''_''))"
    using collision_loop_bound by blast
  show ?thesis
    using assms(1) s j
    by (auto simp: makeIdentifierGenerator_def AList.update_conv'
        split: option.splits list.splits)
qed

lemma makeIdentifierGenerator_keeps:
  assumes "makeIdentifierGenerator P S c k = Some (n, c')" "map_of c k' = Some v" "v \<noteq> []"
  shows "map_of c' k' = Some v"
  using assms
  by (auto simp: makeIdentifierGenerator_def AList.update_conv'
      split: option.splits list.splits if_splits)

lemma globalExportsVariableName_all_keeps:
  "map_of c k = Some v \<Longrightarrow>
   \<exists>ns c'. allocate_all globalExportsVariableName c ks = Some (ns, c') \<and> map_of c' k = Some v"
proof (induction ks arbitrary: c)
  case Nil
  then show ?case by simp
next
  case (Cons a ks)
  obtain n c1 where a: "globalExportsVariableName c a = Some (n, c1)"
    and st: "alloc_step ''__EXBY_MODULE__'' ''__'' c a n c1"
    using globalExportsVariableName_step by blast
  have "map_of c1 k = Some v" using st Cons.prems by (rule alloc_step_keeps)
  from Cons.IH[OF this] a show ?case by auto
qed

lemma makeIdentifierGenerator_all_keeps:
  "map_of c k = Some v \<Longrightarrow> v \<noteq> [] \<Longrightarrow>
   \<exists>ns c'. allocate_all (makeIdentifierGenerator P S) c ks = Some (ns, c') \<and>
     map_of c' k = Some v"
proof (induction ks arbitrary: c)
  case Nil
  then show ?case by simp
next
  case (Cons a ks)
  obtain n c1 where a: "makeIdentifierGenerator P S c a = Some (n, c1)"
    using makeIdentifierGenerator_total by blast
  have "map_of c1 k = Some v"
    using a Cons.prems by (rule makeIdentifierGenerator_keeps)
  from Cons.IH[OF this Cons.prems(2)] a show ?case by auto
qed

lemma sanitize_examples:
  "sanitize ''a.b'' = ''a_b''" "sanitize ''a_b'' = ''a_b''"
  "sanitize ''a.js'' = ''a_js''" "sanitize ''b.js'' = ''b_js''"
  by (simp_all add: sanitize_def word_char_def)

lemma globalExportsVariableName_collision_run:
  "allocate_all globalExportsVariableName [] [''a.b'', ''a_b''] =
     Some ([''__EXBY_MODULE__a_b__'', ''__EXBY_MODULE__a_b___''],
           [(''a.b'', ''__EXBY_MODULE__a_b__''), (''a_b'', ''__EXBY_MODULE__a_b___'')])"
  by (simp add: globalExportsVariableName_def sanitize_examples collision_loop.simps)

lemma globalExportsVariableName_single_run:
  "allocate_all globalExportsVariableName [] [''a_b''] =
     Some ([''__EXBY_MODULE__a_b__''], [(''a_b'', ''__EXBY_MODULE__a_b__'')])"
  by (simp add: globalExportsVariableName_def sanitize_examples collision_loop.simps)

section \<open>The claims about the allocator\<close>

text \<open>
  C10. The allocator returns on every input and every cache: the collision loop appends at
  most as many underscores as the cache holds values and then stops, so both
  \<^verbatim>\<open>globalExportsVariableName\<close> and the generator of \<^verbatim>\<open>makeIdentifierGenerator\<close> return a name
  and a cache, whatever the cache and the string.
\<close>

theorem allocator_terminates:
  "(\<exists>j \<le> length vals. collision_loop vals name = Some (name @ replicate j (CHR ''_''))) \<and>
   (\<exists>n c'. globalExportsVariableName c k = Some (n, c')) \<and>
   (\<exists>n c'. makeIdentifierGenerator P S c k = Some (n, c'))"
proof (intro conjI)
  show "\<exists>j \<le> length vals. collision_loop vals name = Some (name @ replicate j (CHR ''_''))"
    using collision_loop_bound[of vals name] by blast
  show "\<exists>n c'. globalExportsVariableName c k = Some (n, c')"
    using globalExportsVariableName_step[of c k] by blast
  show "\<exists>n c'. makeIdentifierGenerator P S c k = Some (n, c')"
    by (rule makeIdentifierGenerator_total)
qed

text \<open>
  C6. The allocator is idempotent per key: the first call on a key returns a name, and after
  any further calls (on any keys, this one included) a call on the same key returns that
  same name and leaves the cache as it is. For the generator of the Babel plugin this holds
  for every non-empty key.
\<close>

theorem allocate_idempotent:
  "(\<exists>n c1. globalExportsVariableName c k = Some (n, c1) \<and>
      (\<forall>ks. \<exists>ns c2. allocate_all globalExportsVariableName c1 ks = Some (ns, c2) \<and>
         globalExportsVariableName c2 k = Some (n, c2))) \<and>
   (k \<noteq> [] \<longrightarrow>
      (\<exists>n c1. makeIdentifierGenerator P S c k = Some (n, c1) \<and>
        (\<forall>ks. \<exists>ns c2. allocate_all (makeIdentifierGenerator P S) c1 ks = Some (ns, c2) \<and>
           makeIdentifierGenerator P S c2 k = Some (n, c2))))"
proof (intro conjI impI)
  obtain n c1 where a: "globalExportsVariableName c k = Some (n, c1)"
    and st: "alloc_step ''__EXBY_MODULE__'' ''__'' c k n c1"
    using globalExportsVariableName_step by blast
  have b: "map_of c1 k = Some n" using st by (rule alloc_step_binds)
  have "\<exists>ns c2. allocate_all globalExportsVariableName c1 ks = Some (ns, c2) \<and>
      globalExportsVariableName c2 k = Some (n, c2)" for ks
    using globalExportsVariableName_all_keeps[OF b, of ks]
    by (auto simp: globalExportsVariableName_hit)
  with a show "\<exists>n c1. globalExportsVariableName c k = Some (n, c1) \<and>
      (\<forall>ks. \<exists>ns c2. allocate_all globalExportsVariableName c1 ks = Some (ns, c2) \<and>
         globalExportsVariableName c2 k = Some (n, c2))"
    by blast
next
  assume k: "k \<noteq> []"
  obtain n c1 where a: "makeIdentifierGenerator P S c k = Some (n, c1)"
    using makeIdentifierGenerator_total by blast
  from makeIdentifierGenerator_result[OF a k]
  have n: "n \<noteq> []" and b: "map_of c1 k = Some n" by simp_all
  have "\<exists>ns c2. allocate_all (makeIdentifierGenerator P S) c1 ks = Some (ns, c2) \<and>
      makeIdentifierGenerator P S c2 k = Some (n, c2)" for ks
    using makeIdentifierGenerator_all_keeps[OF b n, of P S ks] n
    by (auto simp: makeIdentifierGenerator_hit)
  with a show "\<exists>n c1. makeIdentifierGenerator P S c k = Some (n, c1) \<and>
      (\<forall>ks. \<exists>ns c2. allocate_all (makeIdentifierGenerator P S) c1 ks = Some (ns, c2) \<and>
         makeIdentifierGenerator P S c2 k = Some (n, c2))"
    by blast
qed

theorem allocate_idempotent_witness:
  "''a.js'' \<noteq> [] \<and>
   (\<exists>n c1. makeIdentifierGenerator ''__'' ''__'' [] ''a.js'' = Some (n, c1) \<and>
      (\<forall>ks. \<exists>ns c2. allocate_all (makeIdentifierGenerator ''__'' ''__'') c1 ks = Some (ns, c2) \<and>
         makeIdentifierGenerator ''__'' ''__'' c2 ''a.js'' = Some (n, c2)))"
  using allocate_idempotent[of "[]" "''a.js''" "''__''" "''__''"] by simp

text \<open>
  C4. Within one build (calls on any list of keys, from the empty cache) the allocator
  returns a name at every call, distinct keys get distinct names, and every name is a valid
  identifier. This holds for \<^verbatim>\<open>globalExportsVariableName\<close> and for the generator of the Babel
  plugin with its default prefix and suffix \<^verbatim>\<open>__\<close>.
\<close>

theorem allocated_names_distinct_valid:
  "(\<exists>ns c. allocate_all globalExportsVariableName [] ks = Some (ns, c) \<and>
      length ns = length ks \<and>
      (\<forall>i < length ks. \<forall>j < length ks. ks ! i \<noteq> ks ! j \<longrightarrow> ns ! i \<noteq> ns ! j) \<and>
      (\<forall>n \<in> set ns. valid_identifier n)) \<and>
   (\<exists>ns c. allocate_all (makeIdentifierGenerator ''__'' ''__'') [] ks = Some (ns, c) \<and>
      length ns = length ks \<and>
      (\<forall>i < length ks. \<forall>j < length ks. ks ! i \<noteq> ks ! j \<longrightarrow> ns ! i \<noteq> ns ! j) \<and>
      (\<forall>n \<in> set ns. valid_identifier n))"
proof (rule conjI)
  show "\<exists>ns c. allocate_all globalExportsVariableName [] ks = Some (ns, c) \<and>
      length ns = length ks \<and>
      (\<forall>i < length ks. \<forall>j < length ks. ks ! i \<noteq> ks ! j \<longrightarrow> ns ! i \<noteq> ns ! j) \<and>
      (\<forall>n \<in> set ns. valid_identifier n)"
    by (rule allocate_all_distinct_valid[of _ "''__EXBY_MODULE__''" "''__''"])
      (simp_all add: globalExportsVariableName_step word_char_def)
  show "\<exists>ns c. allocate_all (makeIdentifierGenerator ''__'' ''__'') [] ks = Some (ns, c) \<and>
      length ns = length ks \<and>
      (\<forall>i < length ks. \<forall>j < length ks. ks ! i \<noteq> ks ! j \<longrightarrow> ns ! i \<noteq> ns ! j) \<and>
      (\<forall>n \<in> set ns. valid_identifier n)"
    by (rule allocate_all_distinct_valid[of _ "''__''" "''__''"])
      (simp_all add: makeIdentifierGenerator_step word_char_def)
qed

theorem allocated_names_distinct_valid_witness:
  "(0::nat) < length [''a.b'', ''a_b''] \<and> (1::nat) < length [''a.b'', ''a_b''] \<and>
   [''a.b'', ''a_b''] ! 0 \<noteq> [''a.b'', ''a_b''] ! 1 \<and>
   (\<exists>ns c. allocate_all globalExportsVariableName [] [''a.b'', ''a_b''] = Some (ns, c) \<and>
      ns ! 0 \<noteq> ns ! 1 \<and> valid_identifier (ns ! 0) \<and> valid_identifier (ns ! 1))"
proof -
  obtain ns c where r: "allocate_all globalExportsVariableName [] [''a.b'', ''a_b''] = Some (ns, c)"
      "length ns = length [''a.b'', ''a_b'']"
      "\<forall>i < length [''a.b'', ''a_b'']. \<forall>j < length [''a.b'', ''a_b''].
         [''a.b'', ''a_b''] ! i \<noteq> [''a.b'', ''a_b''] ! j \<longrightarrow> ns ! i \<noteq> ns ! j"
      "\<forall>n \<in> set ns. valid_identifier n"
    using allocated_names_distinct_valid[of "[''a.b'', ''a_b'']"] by blast
  have h: "(0::nat) < length [''a.b'', ''a_b'']" "(1::nat) < length [''a.b'', ''a_b'']"
    "[''a.b'', ''a_b''] ! 0 \<noteq> [''a.b'', ''a_b''] ! 1"
    by simp_all
  from r(3) h have d: "ns ! 0 \<noteq> ns ! 1" by blast
  have "ns ! 0 \<in> set ns" "ns ! 1 \<in> set ns" using r(2) by simp_all
  with r(4) have "valid_identifier (ns ! 0)" "valid_identifier (ns ! 1)" by blast+
  with r(1) d h show ?thesis by blast
qed

text \<open>
  C5, as stated, fails: the name of a key depends on which keys were allocated before it.
  The keys \<^verbatim>\<open>a.b\<close> and \<^verbatim>\<open>a_b\<close> sanitise to the same string, so \<^verbatim>\<open>a_b\<close> is named
  \<^verbatim>\<open>__EXBY_MODULE__a_b___\<close> when \<^verbatim>\<open>a.b\<close> was allocated first and \<^verbatim>\<open>__EXBY_MODULE__a_b__\<close> when
  it is allocated alone.
\<close>

theorem allocated_name_depends_on_history:
  "map_option fst (allocate_all globalExportsVariableName [] [''a.b'', ''a_b'']) =
     Some [''__EXBY_MODULE__a_b__'', ''__EXBY_MODULE__a_b___''] \<and>
   map_option fst (allocate_all globalExportsVariableName [] [''a_b'']) =
     Some [''__EXBY_MODULE__a_b__'']"
  unfolding globalExportsVariableName_collision_run globalExportsVariableName_single_run
  by simp

text \<open>
  C5, amended. In a build whose keys sanitise to pairwise distinct strings, every call
  returns the prefix, the sanitised key and the suffix, with nothing appended: the name of a
  key is then a function of the key alone, the same in every allocation sequence and for
  every allocator with that prefix and suffix (for the Babel plugin's generator: on
  non-empty keys).
\<close>

theorem allocated_name_derived_without_collision:
  assumes "inj_on sanitize (set ks)"
  shows "map_option fst (allocate_all globalExportsVariableName [] ks) =
           Some (map (\<lambda>k. ''__EXBY_MODULE__'' @ sanitize k @ ''__'') ks) \<and>
         ([] \<notin> set ks \<longrightarrow>
           map_option fst (allocate_all (makeIdentifierGenerator P S) [] ks) =
             Some (map (\<lambda>k. P @ sanitize k @ S) ks))"
proof (intro conjI impI)
  have "\<exists>c'. allocate_all globalExportsVariableName [] ks =
      Some (map (\<lambda>k. ''__EXBY_MODULE__'' @ sanitize k @ ''__'') ks, c')"
    using assms
    by (intro allocate_all_derived[where K = "set ks"])
      (simp_all add: globalExportsVariableName_hit globalExportsVariableName_fresh)
  then show "map_option fst (allocate_all globalExportsVariableName [] ks) =
      Some (map (\<lambda>k. ''__EXBY_MODULE__'' @ sanitize k @ ''__'') ks)"
    by auto
next
  assume ne: "[] \<notin> set ks"
  have "\<forall>k \<in> set ks. P @ sanitize k @ S \<noteq> []"
    using ne by (auto simp: sanitize_def)
  then have "\<exists>c'. allocate_all (makeIdentifierGenerator P S) [] ks =
      Some (map (\<lambda>k. P @ sanitize k @ S) ks, c')"
    using assms
    by (intro allocate_all_derived[where K = "set ks"])
      (simp_all add: makeIdentifierGenerator_hit makeIdentifierGenerator_fresh)
  then show "map_option fst (allocate_all (makeIdentifierGenerator P S) [] ks) =
      Some (map (\<lambda>k. P @ sanitize k @ S) ks)"
    by auto
qed

theorem allocated_name_derived_without_collision_witness:
  "inj_on sanitize (set [''a.js'', ''b.js'', ''a.js'']) \<and>
   [] \<notin> set [''a.js'', ''b.js'', ''a.js''] \<and>
   map_option fst (allocate_all globalExportsVariableName [] [''a.js'', ''b.js'', ''a.js'']) =
     Some [''__EXBY_MODULE__a_js__'', ''__EXBY_MODULE__b_js__'', ''__EXBY_MODULE__a_js__''] \<and>
   map_option fst (allocate_all (makeIdentifierGenerator ''__'' ''__'') []
       [''a.js'', ''b.js'', ''a.js'']) =
     Some [''__a_js__'', ''__b_js__'', ''__a_js__'']"
proof -
  have h: "inj_on sanitize (set [''a.js'', ''b.js'', ''a.js''])"
    by (auto simp: inj_on_def sanitize_examples)
  have e: "[] \<notin> set [''a.js'', ''b.js'', ''a.js'']" by simp
  from allocated_name_derived_without_collision[OF h, of "''__''" "''__''"] e h
  show ?thesis by (simp add: sanitize_examples)
qed

section \<open>Flattening: fuel\<close>

lemma map_results_all_Inr:
  "map_results (map (\<lambda>x. Some (Inr x)) xs) = Some (Inr xs)"
  by (induction xs) simp_all

lemma map_results_Inr_D:
  "map_results rs = Some (Inr xs) \<Longrightarrow> rs = map (\<lambda>x. Some (Inr x)) xs"
proof (induction rs arbitrary: xs rule: map_results.induct)
  case 1
  then show ?case by simp
next
  case (2 rs)
  then show ?case by simp
next
  case (3 e rs)
  then show ?case by simp
next
  case (4 x rs)
  from "4.prems" obtain ys where ys: "map_results rs = Some (Inr ys)" "xs = x # ys"
    by (auto split: option.splits sum.splits)
  from "4.IH"[OF ys(1)] ys(2) show ?case by simp
qed

lemma map_results_Inr_iff:
  "map_results rs = Some (Inr xs) \<longleftrightarrow> rs = map (\<lambda>x. Some (Inr x)) xs"
  using map_results_all_Inr map_results_Inr_D by blast

lemma map_results_mono:
  assumes "map_results (map f xs) = Some R"
    and "\<And>x r. x \<in> set xs \<Longrightarrow> f x = Some r \<Longrightarrow> f' x = Some r"
  shows "map_results (map f' xs) = Some R"
  using assms
proof (induction xs arbitrary: R)
  case Nil
  then show ?case by simp
next
  case (Cons x xs)
  show ?case
  proof (cases "f x")
    case None
    with Cons.prems(1) show ?thesis by simp
  next
    case (Some r)
    then have f': "f' x = Some r" using Cons.prems(2) by simp
    show ?thesis
    proof (cases r)
      case (Inl e)
      with Some f' Cons.prems(1) show ?thesis by simp
    next
      case (Inr v)
      from Cons.prems(1) Some Inr obtain R' where R': "map_results (map f xs) = Some R'"
        by (auto split: option.splits)
      have "map_results (map f' xs) = Some R'"
        using R' Cons.prems(2) by (intro Cons.IH) auto
      with R' Cons.prems(1) Some Inr f' show ?thesis by simp
    qed
  qed
qed

lemma flatImportList_Suc:
  "flatImportList n g e = Some r \<Longrightarrow> flatImportList (Suc n) g e = Some r"
proof (induction n arbitrary: e r)
  case 0
  then show ?case
    by (cases "(0::nat, g, e)" rule: flatImportList.cases) auto
next
  case (Suc n)
  show ?case
  proof (cases e)
    case None
    with Suc.prems show ?thesis by simp
  next
    case (Some item)
    show ?thesis
    proof (cases item)
      case (OutputAsset f)
      with Some Suc.prems show ?thesis by simp
    next
      case (OutputChunk c)
      let ?f = "\<lambda>n importee. flatImportList n g (find (\<lambda>c. item_fileName c = importee) g)"
      from Suc.prems Some OutputChunk obtain R
        where R: "map_results (map (?f n) (imports c)) = Some R"
        by (auto split: option.splits)
      have "map_results (map (?f (Suc n)) (imports c)) = Some R"
        using R by (rule map_results_mono) (rule Suc.IH)
      with R Suc.prems Some OutputChunk show ?thesis by simp
    qed
  qed
qed

lemma flatImportList_mono:
  "n \<le> m \<Longrightarrow> flatImportList n g e = Some r \<Longrightarrow> flatImportList m g e = Some r"
  by (induction m) (auto simp: le_Suc_eq flatImportList_Suc)

lemma flatImportList_fuel_unique:
  assumes "flatImportList n g e = Some r" "flatImportList m g e = Some r'"
  shows "r = r'"
proof -
  have "flatImportList (max n m) g e = Some r"
    using assms(1) by (rule flatImportList_mono[rotated]) simp
  moreover have "flatImportList (max n m) g e = Some r'"
    using assms(2) by (rule flatImportList_mono[rotated]) simp
  ultimately show ?thesis by simp
qed

section \<open>Flattening: the order of the result\<close>

lemma find_name_Some:
  "find (\<lambda>i. item_fileName i = a) g = Some item \<Longrightarrow> item \<in> set g \<and> item_fileName item = a"
  by (auto simp: find_Some_iff)

lemma find_name_present:
  "a \<in> item_fileName ` set g \<Longrightarrow> \<exists>item. find (\<lambda>i. item_fileName i = a) g = Some item"
  by (cases "find (\<lambda>i. item_fileName i = a) g") (auto simp: find_None_iff)

lemma find_name_distinct:
  "distinct (map item_fileName g) \<Longrightarrow> item \<in> set g \<Longrightarrow>
   find (\<lambda>i. item_fileName i = item_fileName item) g = Some item"
proof (induction g)
  case Nil
  then show ?case by simp
next
  case (Cons x g)
  show ?case
  proof (cases "x = item")
    case True
    then show ?thesis by simp
  next
    case False
    with Cons.prems have "item \<in> set g" "item_fileName x \<noteq> item_fileName item"
      by auto
    with Cons show ?thesis by simp
  qed
qed

lemma deps_first_mono:
  "deps_first E R S xs \<Longrightarrow> S \<subseteq> S' \<Longrightarrow> deps_first E R S' xs"
proof (induction xs arbitrary: S S')
  case Nil
  then show ?case by simp
next
  case (Cons x xs)
  from Cons.prems(1) have hd: "\<forall>b. (x, b) \<in> E \<and> b \<in> R \<longrightarrow> b \<in> S"
    and tl: "deps_first E R (insert x S) xs"
    by simp_all
  have sub: "insert x S \<subseteq> insert x S'" using Cons.prems(2) by blast
  have "deps_first E R (insert x S') xs" using tl sub by (rule Cons.IH)
  moreover have "\<forall>b. (x, b) \<in> E \<and> b \<in> R \<longrightarrow> b \<in> S'"
    using hd Cons.prems(2) by blast
  ultimately show ?case by simp
qed

lemma deps_first_append:
  "deps_first E R S (xs @ ys) \<longleftrightarrow> deps_first E R S xs \<and> deps_first E R (S \<union> set xs) ys"
proof (induction xs arbitrary: S)
  case Nil
  then show ?case by simp
next
  case (Cons x xs)
  have "insert x S \<union> set xs = S \<union> set (x # xs)" by auto
  with Cons[of "insert x S"] show ?case by auto
qed

lemma deps_first_concat:
  "(\<And>ys. ys \<in> set yss \<Longrightarrow> deps_first E R {} ys) \<Longrightarrow> deps_first E R S (concat yss)"
proof (induction yss arbitrary: S)
  case Nil
  then show ?case by simp
next
  case (Cons ys yss)
  have "deps_first E R {} ys" using Cons.prems by simp
  then have "deps_first E R S ys" by (rule deps_first_mono) simp
  moreover have "deps_first E R (S \<union> set ys) (concat yss)"
    using Cons.prems by (intro Cons.IH) simp
  ultimately show ?case by (simp add: deps_first_append)
qed

lemma deps_first_nth:
  assumes "deps_first E R S xs" "i < length xs" "(xs ! i, b) \<in> E" "b \<in> R"
  shows "b \<in> S \<or> (\<exists>j < i. xs ! j = b)"
  using assms
proof (induction xs arbitrary: S i)
  case Nil
  then show ?case by simp
next
  case (Cons x xs)
  show ?case
  proof (cases i)
    case 0
    with Cons.prems show ?thesis by auto
  next
    case (Suc i')
    with Cons.prems have "b \<in> insert x S \<or> (\<exists>j < i'. xs ! j = b)"
      by (intro Cons.IH) auto
    then show ?thesis
    proof (elim disjE exE conjE)
      assume "b \<in> insert x S"
      then show ?thesis using Suc by (cases "b = x") auto
    next
      fix j assume "j < i'" "xs ! j = b"
      then have "Suc j < i \<and> (x # xs) ! Suc j = b" using Suc by simp
      then show ?thesis by blast
    qed
  qed
qed

lemma flatImportList_children:
  assumes "flatImportList (Suc n) g (Some (OutputChunk c)) = Some (Inr xs)"
  shows "\<exists>nested. xs = concat nested @ [fileName c] \<and> length nested = length (imports c) \<and>
     (\<forall>k < length nested.
        flatImportList n g (find (\<lambda>i. item_fileName i = imports c ! k) g) =
          Some (Inr (nested ! k)))"
proof -
  let ?f = "\<lambda>importee. flatImportList n g (find (\<lambda>c. item_fileName c = importee) g)"
  from assms obtain nested where n: "map_results (map ?f (imports c)) = Some (Inr nested)"
    and xs: "xs = concat nested @ [fileName c]"
    by (auto split: option.splits sum.splits)
  from n have m: "map ?f (imports c) = map (\<lambda>x. Some (Inr x)) nested"
    by (rule map_results_Inr_D)
  then have len: "length nested = length (imports c)"
    by (metis length_map)
  have "\<forall>k < length nested. ?f (imports c ! k) = Some (Inr (nested ! k))"
  proof (intro allI impI)
    fix k assume k: "k < length nested"
    have "?f (imports c ! k) = map ?f (imports c) ! k"
      using k len by (simp only: nth_map)
    also have "\<dots> = map (\<lambda>x. Some (Inr x)) nested ! k" by (simp only: m)
    also have "\<dots> = Some (Inr (nested ! k))" using k by (simp only: nth_map)
    finally show "?f (imports c ! k) = Some (Inr (nested ! k))" .
  qed
  with xs len show ?thesis by blast
qed

lemma import_edges_I:
  "find (\<lambda>i. item_fileName i = a) g = Some (OutputChunk c) \<Longrightarrow> b \<in> set (imports c) \<Longrightarrow>
   (a, b) \<in> import_edges g"
  by (auto simp: import_edges_def)

lemma import_edges_D:
  "(a, b) \<in> import_edges g \<Longrightarrow>
   \<exists>c. find (\<lambda>i. item_fileName i = a) g = Some (OutputChunk c) \<and> b \<in> set (imports c)"
  by (auto simp: import_edges_def)

lemma flatImportList_props:
  assumes "flatImportList n g (Some (OutputChunk c)) = Some (Inr xs)"
    and "find (\<lambda>i. item_fileName i = fileName c) g = Some (OutputChunk c)"
  shows "(\<exists>ys. xs = ys @ [fileName c] \<and> (\<forall>x \<in> set ys. (fileName c, x) \<in> (import_edges g)\<^sup>+)) \<and>
    (\<forall>x \<in> set xs. (x = fileName c \<or> (fileName c, x) \<in> (import_edges g)\<^sup>+) \<and>
        (\<exists>d. find (\<lambda>i. item_fileName i = x) g = Some (OutputChunk d))) \<and>
    deps_first (import_edges g) (item_fileName ` set g) {} xs"
  using assms
proof (induction n arbitrary: c xs)
  case 0
  then show ?case by simp
next
  case (Suc n)
  let ?E = "import_edges g" and ?R = "item_fileName ` set g"
  let ?find = "\<lambda>a. find (\<lambda>i. item_fileName i = a) g"
  from flatImportList_children[OF Suc.prems(1)] obtain nested
    where xs: "xs = concat nested @ [fileName c]"
      and len: "length nested = length (imports c)"
      and kid: "\<forall>k < length nested.
          flatImportList n g (?find (imports c ! k)) = Some (Inr (nested ! k))"
    by blast
  have child: "(nested ! k = [] \<and> ?find (imports c ! k) = None) \<or>
      (\<exists>d. ?find (imports c ! k) = Some (OutputChunk d) \<and>
        (\<exists>ys. nested ! k = ys @ [imports c ! k] \<and>
           (\<forall>x \<in> set ys. (imports c ! k, x) \<in> ?E\<^sup>+)) \<and>
        (\<forall>x \<in> set (nested ! k).
            (x = imports c ! k \<or> (imports c ! k, x) \<in> ?E\<^sup>+) \<and>
            (\<exists>d. ?find x = Some (OutputChunk d))) \<and>
        deps_first ?E ?R {} (nested ! k))"
    if k: "k < length nested" for k
  proof (cases "?find (imports c ! k)")
    case None
    have "flatImportList n g (?find (imports c ! k)) = Some (Inr (nested ! k))"
      using kid k by blast
    then show ?thesis unfolding None by simp
  next
    case (Some item)
    show ?thesis
    proof (cases item)
      case (OutputAsset f)
      have "flatImportList n g (?find (imports c ! k)) = Some (Inr (nested ! k))"
        using kid k by blast
      then show ?thesis unfolding Some OutputAsset by simp
    next
      case (OutputChunk d)
      have nm: "fileName d = imports c ! k"
        using find_name_Some[OF Some] OutputChunk by simp
      have "flatImportList n g (?find (imports c ! k)) = Some (Inr (nested ! k))"
        using kid k by blast
      then have run: "flatImportList n g (Some (OutputChunk d)) = Some (Inr (nested ! k))"
        unfolding Some OutputChunk .
      have fd: "?find (fileName d) = Some (OutputChunk d)"
        using Some OutputChunk nm by simp
      from Suc.IH[OF run fd] nm Some OutputChunk show ?thesis by simp
    qed
  qed
  have self_edge: "(fileName c, imports c ! k) \<in> ?E" if "k < length nested" for k
    using that len Suc.prems(2) by (intro import_edges_I[of _ _ c]) simp_all
  have elems: "\<forall>x \<in> set xs. (x = fileName c \<or> (fileName c, x) \<in> ?E\<^sup>+) \<and>
        (\<exists>d. ?find x = Some (OutputChunk d))"
  proof
    fix x assume "x \<in> set xs"
    then consider "x = fileName c" | ys where "ys \<in> set nested" "x \<in> set ys"
      using xs by auto
    then show "(x = fileName c \<or> (fileName c, x) \<in> ?E\<^sup>+) \<and>
        (\<exists>d. ?find x = Some (OutputChunk d))"
    proof cases
      case 1
      then show ?thesis using Suc.prems(2) by blast
    next
      case 2
      then obtain k where k: "k < length nested" "ys = nested ! k"
        by (metis in_set_conv_nth)
      from child[OF k(1)] 2(2) k(2)
      have x: "(x = imports c ! k \<or> (imports c ! k, x) \<in> ?E\<^sup>+) \<and>
          (\<exists>d. ?find x = Some (OutputChunk d))"
        by auto
      have "(fileName c, x) \<in> ?E\<^sup>+"
        using x self_edge[OF k(1)] by (auto intro: trancl_into_trancl2)
      with x show ?thesis by blast
    qed
  qed
  have inner: "\<forall>x \<in> set (concat nested). (fileName c, x) \<in> ?E\<^sup>+"
  proof
    fix x assume "x \<in> set (concat nested)"
    then obtain ys where "ys \<in> set nested" "x \<in> set ys" by auto
    then obtain k where k: "k < length nested" "x \<in> set (nested ! k)"
      by (metis in_set_conv_nth)
    from child[OF k(1)] k(2)
    have "x = imports c ! k \<or> (imports c ! k, x) \<in> ?E\<^sup>+" by auto
    then show "(fileName c, x) \<in> ?E\<^sup>+"
      using self_edge[OF k(1)] by (auto intro: trancl_into_trancl2)
  qed
  have "deps_first ?E ?R {} (concat nested)"
  proof (rule deps_first_concat)
    fix ys assume "ys \<in> set nested"
    then obtain k where k: "k < length nested" "ys = nested ! k"
      by (metis in_set_conv_nth)
    from child[OF k(1)] k(2) show "deps_first ?E ?R {} ys" by auto
  qed
  moreover have "\<forall>b. (fileName c, b) \<in> ?E \<and> b \<in> ?R \<longrightarrow> b \<in> set (concat nested)"
  proof (intro allI impI)
    fix b assume b: "(fileName c, b) \<in> ?E \<and> b \<in> ?R"
    from import_edges_D[of "fileName c" b g] b Suc.prems(2)
    have "b \<in> set (imports c)" by auto
    then obtain k where k: "k < length nested" "b = imports c ! k"
      using len by (metis in_set_conv_nth)
    from b find_name_present[of b g] have "?find b \<noteq> None" by auto
    with child[OF k(1)] k(2) obtain ys where "nested ! k = ys @ [b]" by auto
    then have "b \<in> set (nested ! k)" by simp
    with k(1) show "b \<in> set (concat nested)" by auto
  qed
  ultimately have "deps_first ?E ?R {} xs"
    unfolding xs by (simp add: deps_first_append)
  with xs elems inner show ?case by blast
qed

section \<open>Flattening: an acyclic graph needs finite fuel\<close>

lemma finite_import_edges: "finite (import_edges g)"
proof -
  have "import_edges g \<subseteq>
      item_fileName ` set g \<times> (\<Union>i \<in> set g. case i of OutputChunk c \<Rightarrow> set (imports c) | _ \<Rightarrow> {})"
  proof
    fix p assume "p \<in> import_edges g"
    then obtain a b c where p: "p = (a, b)"
      and f: "find (\<lambda>i. item_fileName i = a) g = Some (OutputChunk c)" and b: "b \<in> set (imports c)"
      by (auto simp: import_edges_def)
    from find_name_Some[OF f] have "OutputChunk c \<in> set g" "fileName c = a" by auto
    with b p show "p \<in> item_fileName ` set g \<times>
        (\<Union>i \<in> set g. case i of OutputChunk c \<Rightarrow> set (imports c) | _ \<Rightarrow> {})"
      by force
  qed
  moreover have "finite (item_fileName ` set g \<times>
      (\<Union>i \<in> set g. case i of OutputChunk c \<Rightarrow> set (imports c) | _ \<Rightarrow> {}))"
    by (auto split: output_item.splits)
  ultimately show ?thesis by (rule finite_subset)
qed

lemma common_fuel:
  assumes "\<forall>b \<in> set bs. \<exists>n ys. flatImportList n g (e b) = Some (Inr ys)"
  shows "\<exists>N. \<forall>b \<in> set bs. \<exists>ys. flatImportList N g (e b) = Some (Inr ys)"
  using assms
proof (induction bs)
  case Nil
  then show ?case by simp
next
  case (Cons b bs)
  then obtain N where N: "\<forall>b \<in> set bs. \<exists>ys. flatImportList N g (e b) = Some (Inr ys)"
    by auto
  from Cons.prems obtain n ys where n: "flatImportList n g (e b) = Some (Inr ys)"
    by auto
  have "\<forall>b' \<in> set (b # bs). \<exists>ys. flatImportList (max n N) g (e b') = Some (Inr ys)"
  proof
    fix b' assume "b' \<in> set (b # bs)"
    then consider "b' = b" | "b' \<in> set bs" by auto
    then show "\<exists>ys. flatImportList (max n N) g (e b') = Some (Inr ys)"
    proof cases
      case 1
      have "flatImportList (max n N) g (e b) = Some (Inr ys)"
        using n by (rule flatImportList_mono[rotated]) simp
      with 1 show ?thesis by blast
    next
      case 2
      with N obtain zs where "flatImportList N g (e b') = Some (Inr zs)" by blast
      then have "flatImportList (max n N) g (e b') = Some (Inr zs)"
        by (rule flatImportList_mono[rotated]) simp
      then show ?thesis by blast
    qed
  qed
  then show ?case by blast
qed

lemma flatImportList_returns:
  assumes ac: "acyclic (import_edges g)"
    and noasset: "\<And>a b f. (a, b) \<in> import_edges g \<Longrightarrow>
        find (\<lambda>i. item_fileName i = b) g \<noteq> Some (OutputAsset f)"
  shows "find (\<lambda>i. item_fileName i = a) g = Some (OutputChunk c) \<Longrightarrow>
    \<exists>n xs. flatImportList n g (Some (OutputChunk c)) = Some (Inr xs)"
proof -
  let ?find = "\<lambda>a. find (\<lambda>i. item_fileName i = a) g"
  have wf: "wf ((import_edges g)\<inverse>)"
    using finite_import_edges ac by (rule finite_acyclic_wf_converse)
  show "?find a = Some (OutputChunk c) \<Longrightarrow>
    \<exists>n xs. flatImportList n g (Some (OutputChunk c)) = Some (Inr xs)"
    using wf
  proof (induction a arbitrary: c rule: wf_induct_rule)
    case (less a)
    have "\<forall>b \<in> set (imports c). \<exists>n ys. flatImportList n g (?find b) = Some (Inr ys)"
    proof
      fix b assume b: "b \<in> set (imports c)"
      have e: "(a, b) \<in> import_edges g" using less.prems b by (rule import_edges_I)
      show "\<exists>n ys. flatImportList n g (?find b) = Some (Inr ys)"
      proof (cases "?find b")
        case None
        then show ?thesis by simp
      next
        case (Some item)
        show ?thesis
        proof (cases item)
          case (OutputAsset f)
          with Some noasset[OF e] show ?thesis by simp
        next
          case (OutputChunk d)
          have "(b, a) \<in> (import_edges g)\<inverse>" using e by simp
          from less.IH[OF this, of d] Some OutputChunk show ?thesis by simp
        qed
      qed
    qed
    from common_fuel[of "imports c" g ?find, OF this] obtain N
      where N: "\<forall>b \<in> set (imports c). \<exists>ys. flatImportList N g (?find b) = Some (Inr ys)"
      by blast
    then obtain child where child:
      "\<forall>b \<in> set (imports c). flatImportList N g (?find b) = Some (Inr (child b))"
      by metis
    have "map (\<lambda>importee. flatImportList N g (?find importee)) (imports c) =
        map (\<lambda>x. Some (Inr x)) (map child (imports c))"
      using child by simp
    then have "map_results (map (\<lambda>importee. flatImportList N g (?find importee)) (imports c)) =
        Some (Inr (map child (imports c)))"
      by (simp only: map_results_all_Inr)
    then have "flatImportList (Suc N) g (Some (OutputChunk c)) =
        Some (Inr (concat (map child (imports c)) @ [fileName c]))"
      by simp
    then show ?case by blast
  qed
qed

section \<open>The first-occurrence filter\<close>

lemma indexOf_absent: "val \<notin> set xs \<Longrightarrow> indexOf xs val = - 1"
  by (induction xs) (auto simp: Let_def)

lemma indexOf_present: "val \<in> set xs \<Longrightarrow> 0 \<le> indexOf xs val \<and> indexOf xs val < int (length xs)"
  by (induction xs) (auto simp: Let_def)

lemma indexOf_append:
  "indexOf (pre @ xs) val =
     (if val \<in> set pre then indexOf pre val
      else if val \<in> set xs then int (length pre) + indexOf xs val else - 1)"
proof (induction pre)
  case Nil
  then show ?case using indexOf_absent[of val xs] by simp
next
  case (Cons p pre)
  show ?case
  proof (cases "p = val")
    case True
    then show ?thesis by simp
  next
    case False
    consider "val \<in> set pre" | "val \<notin> set pre" "val \<in> set xs" | "val \<notin> set pre" "val \<notin> set xs"
      by blast
    then show ?thesis
    proof cases
      case 1
      with False Cons indexOf_present[of val pre] show ?thesis by (simp add: Let_def)
    next
      case 2
      with False Cons indexOf_present[of val xs] show ?thesis by (simp add: Let_def)
    next
      case 3
      with False Cons show ?thesis by (simp add: Let_def)
    qed
  qed
qed

lemma indexOf_first:
  "indexOf (pre @ x # xs) x = int (length pre) \<longleftrightarrow> x \<notin> set pre"
  using indexOf_present[of x pre] by (auto simp: indexOf_append)

lemma filter_first_index_gen:
  "map fst (filter (\<lambda>(val, i). indexOf (pre @ xs) val = int i)
      (zip xs [length pre ..< length pre + length xs])) = keep_first (set pre) xs"
proof (induction xs arbitrary: pre)
  case Nil
  then show ?case by simp
next
  case (Cons x xs)
  have z: "zip (x # xs) [length pre ..< length pre + length (x # xs)] =
      (x, length pre) # zip xs [length (pre @ [x]) ..< length (pre @ [x]) + length xs]"
  proof -
    have "[length pre ..< length pre + length (x # xs)] =
        length pre # [Suc (length pre) ..< length pre + length (x # xs)]"
      by (rule upt_conv_Cons) simp
    then show ?thesis by (simp del: upt_Suc)
  qed
  have ih: "map fst (filter (\<lambda>(val, i). indexOf (pre @ x # xs) val = int i)
      (zip xs [length (pre @ [x]) ..< length (pre @ [x]) + length xs])) =
      keep_first (set (pre @ [x])) xs"
    using Cons.IH[of "pre @ [x]"] by simp
  have s: "set (pre @ [x]) = insert x (set pre)" by simp
  show ?case
  proof (cases "x \<in> set pre")
    case True
    then have "insert x (set pre) = set pre" by auto
    with True ih s show ?thesis
      unfolding z by (simp add: indexOf_first del: upt_Suc)
  next
    case False
    with ih s show ?thesis
      unfolding z by (simp add: indexOf_first del: upt_Suc)
  qed
qed

lemma filter_first_index_keep_first: "filter_first_index arr = keep_first {} arr"
  using filter_first_index_gen[of "[]" arr] by (simp add: filter_first_index_def)

lemma set_keep_first: "set (keep_first S xs) = set xs - S"
  by (induction xs arbitrary: S) auto

lemma distinct_keep_first: "distinct (keep_first S xs)"
  by (induction xs arbitrary: S) (auto simp: set_keep_first)

lemma keep_first_append:
  "keep_first S (xs @ ys) = keep_first S xs @ keep_first (S \<union> set xs) ys"
proof (induction xs arbitrary: S)
  case Nil
  then show ?case by simp
next
  case (Cons x xs)
  have "insert x S \<union> set xs = S \<union> set (x # xs)" by auto
  moreover have "x \<in> S \<Longrightarrow> S \<union> set xs = S \<union> set (x # xs)" by auto
  ultimately show ?case using Cons[of S] Cons[of "insert x S"] by auto
qed

lemma deps_first_keep_first:
  "deps_first E R S xs \<Longrightarrow> deps_first E R S (keep_first S xs)"
proof (induction xs arbitrary: S)
  case Nil
  then show ?case by simp
next
  case (Cons x xs)
  from Cons.prems have hd: "\<forall>b. (x, b) \<in> E \<and> b \<in> R \<longrightarrow> b \<in> S"
    and tl: "deps_first E R (insert x S) xs"
    by simp_all
  show ?case
  proof (cases "x \<in> S")
    case True
    then have "insert x S = S" by auto
    with tl Cons.IH[of S] True show ?thesis by simp
  next
    case False
    with hd Cons.IH[OF tl] show ?thesis by simp
  qed
qed

section \<open>The splice loop\<close>

lemma splice_loop_result:
  assumes "i \<le> length js" "\<forall>p \<in> set (take i js). dm p \<noteq> None"
  shows "splice_loop dm i js = Inr (concat (map (\<lambda>p. the (dm p)) (take i js)) @ drop i js)"
  using assms
proof (induction i arbitrary: js)
  case 0
  then show ?case by simp
next
  case (Suc i)
  from Suc.prems(1) have i: "i < length js" by simp
  then have t: "take (Suc i) js = take i js @ [js ! i]" by (rule take_Suc_conv_app_nth)
  with Suc.prems(2) obtain deps where deps: "dm (js ! i) = Some deps" by auto
  let ?js = "take i js @ deps @ drop (Suc i) js"
  have ti: "take i ?js = take i js" using i by simp
  have di: "drop i ?js = deps @ drop (Suc i) js" using i by simp
  have "splice_loop dm i ?js = Inr (concat (map (\<lambda>p. the (dm p)) (take i ?js)) @ drop i ?js)"
  proof (rule Suc.IH)
    show "i \<le> length ?js" using i by simp
    show "\<forall>p \<in> set (take i ?js). dm p \<noteq> None" using Suc.prems(2) t ti by auto
  qed
  then show ?case using i deps t ti di by simp
qed

lemma splice_loop_missing:
  assumes "i \<le> length js" "\<exists>p \<in> set (take i js). dm p = None"
  shows "splice_loop dm i js = Inl TypeError"
  using assms
proof (induction i arbitrary: js)
  case 0
  then show ?case by simp
next
  case (Suc i)
  from Suc.prems(1) have i: "i < length js" by simp
  then have t: "take (Suc i) js = take i js @ [js ! i]" by (rule take_Suc_conv_app_nth)
  show ?case
  proof (cases "dm (js ! i)")
    case None
    with i show ?thesis by simp
  next
    case (Some deps)
    let ?js = "take i js @ deps @ drop (Suc i) js"
    have ti: "take i ?js = take i js" using i by simp
    have "splice_loop dm i ?js = Inl TypeError"
    proof (rule Suc.IH)
      show "i \<le> length ?js" using i by simp
      show "\<exists>p \<in> set (take i ?js). dm p = None"
        using Suc.prems(2) t ti Some by auto
    qed
    with i Some show ?thesis by simp
  qed
qed

section \<open>Topological order\<close>

lemma import_edges_present:
  "(a, b) \<in> import_edges g \<Longrightarrow> a \<in> item_fileName ` set g"
proof -
  assume "(a, b) \<in> import_edges g"
  then obtain c where "find (\<lambda>i. item_fileName i = a) g = Some (OutputChunk c)"
    by (auto simp: import_edges_def)
  from find_name_Some[OF this] show ?thesis by force
qed

lemma deps_first_trancl:
  assumes df: "deps_first E R {} xs" and dom: "\<And>a b. (a, b) \<in> E \<Longrightarrow> a \<in> R"
    and path: "(a, b) \<in> E\<^sup>+" and b: "b \<in> R"
  shows "\<forall>i < length xs. xs ! i = a \<longrightarrow> (\<exists>j < i. xs ! j = b)"
  using path
proof (induction rule: converse_trancl_induct)
  case (base y)
  show ?case
  proof (intro allI impI)
    fix i assume "i < length xs" "xs ! i = y"
    with deps_first_nth[OF df, of i b] base b show "\<exists>j < i. xs ! j = b" by auto
  qed
next
  case (step y z)
  have "z \<in> R" using step.hyps(2) dom by (meson tranclD)
  show ?case
  proof (intro allI impI)
    fix i assume i: "i < length xs" "xs ! i = y"
    with deps_first_nth[OF df, of i z] step.hyps(1) \<open>z \<in> R\<close>
    obtain j where j: "j < i" "xs ! j = z" by auto
    then have "j < length xs" using i by simp
    with step.IH j obtain k where k: "k < j" "xs ! k = b" by blast
    from k(1) j(1) have "k < i" by simp
    with k(2) show "\<exists>j < i. xs ! j = b" by blast
  qed
qed

lemma acyclic_by_rank:
  fixes f :: "'a \<Rightarrow> nat"
  assumes "\<And>a b. (a, b) \<in> E \<Longrightarrow> f b < f a"
  shows "acyclic E"
proof -
  have "E \<subseteq> (measure f)\<inverse>" using assms by auto
  moreover have "acyclic ((measure f)\<inverse>)"
    by (simp add: wf_acyclic)
  ultimately show ?thesis by (rule acyclic_subset[rotated])
qed

lemma chunk_graph_find:
  "chunk_graph g \<Longrightarrow> OutputChunk c \<in> set g \<Longrightarrow>
   find (\<lambda>i. item_fileName i = fileName c) g = Some (OutputChunk c)"
  using find_name_distinct[of g "OutputChunk c"] by (simp add: chunk_graph_def)

lemma chunk_graph_no_asset:
  assumes "chunk_graph g" "(a, b) \<in> import_edges g"
  shows "find (\<lambda>i. item_fileName i = b) g \<noteq> Some (OutputAsset f)"
proof
  assume f: "find (\<lambda>i. item_fileName i = b) g = Some (OutputAsset f)"
  from find_name_Some[OF f] have "OutputAsset b \<in> set g" by auto
  moreover from import_edges_D[OF assms(2)] obtain c
    where c: "find (\<lambda>i. item_fileName i = a) g = Some (OutputChunk c)" "b \<in> set (imports c)"
    by blast
  from find_name_Some[OF c(1)] have "OutputChunk c \<in> set g" by simp
  with assms(1) c(2) have "OutputAsset b \<notin> set g"
    unfolding chunk_graph_def by fastforce
  ultimately show False by simp
qed

lemma diamond_run:
  "flatImportList 3 diamond
     (Some (OutputChunk (mk_chunk ''a.js'' [''c.js'', ''d.js''] (Some ''/src/a.js'')))) =
   Some (Inr [''e.js'', ''c.js'', ''e.js'', ''d.js'', ''a.js''])"
  by (simp add: diamond_def mk_chunk_def numeral_3_eq_3)

lemma diamond_filter:
  "filter_first_index [''e.js'', ''c.js'', ''e.js'', ''d.js'', ''a.js''] =
     [''e.js'', ''c.js'', ''d.js'', ''a.js'']"
  by (simp add: filter_first_index_keep_first)

lemma diamond_chunk_graph: "chunk_graph diamond"
  by (simp add: chunk_graph_def diamond_def mk_chunk_def)

lemma diamond_acyclic: "acyclic (import_edges diamond)"
proof (rule acyclic_by_rank)
  fix a b assume "(a, b) \<in> import_edges diamond"
  then show "(if b = ''a.js'' then 2 else if b = ''c.js'' \<or> b = ''d.js'' then 1 else (0::nat))
      < (if a = ''a.js'' then 2 else if a = ''c.js'' \<or> a = ''d.js'' then 1 else 0)"
    by (auto simp: import_edges_def diamond_def mk_chunk_def split: if_splits)
qed

lemma import_deps_before:
  assumes "deps_first (import_edges g) (item_fileName ` set g) {} xs"
    and "(xs ! i, b) \<in> (import_edges g)\<^sup>+" "b \<in> item_fileName ` set g" "i < length xs"
  shows "\<exists>j < i. xs ! j = b"
proof -
  have "\<forall>k < length xs. xs ! k = xs ! i \<longrightarrow> (\<exists>j < k. xs ! j = b)"
  proof (rule deps_first_trancl[OF assms(1) _ assms(2) assms(3)])
    fix a b assume "(a, b) \<in> import_edges g"
    then show "a \<in> item_fileName ` set g" by (rule import_edges_present)
  qed
  with assms(4) show ?thesis by blast
qed

section \<open>The claims about the load order\<close>

text \<open>
  C9. Applied to a missing entry chunk (\<^verbatim>\<open>undefined\<close>), \<^verbatim>\<open>flatImportList\<close> returns the empty
  list, at any recursion depth; and an entry whose module id is the \<^verbatim>\<open>facadeModuleId\<close> of no
  output item gets the empty list in \<^verbatim>\<open>dependencyMap\<close>. Nothing is thrown.
\<close>

theorem flatImportList_missing_entry:
  "flatImportList fuel g None = Some (Inr []) \<and>
   ((\<forall>item \<in> set g. item_facadeModuleId item \<noteq> Some entryModuleID) \<longrightarrow>
      dependencyMap_entry fuel g entryModuleID = Some (Inr []))"
proof (intro conjI impI)
  show "flatImportList fuel g None = Some (Inr [])" by simp
next
  assume "\<forall>item \<in> set g. item_facadeModuleId item \<noteq> Some entryModuleID"
  then have "find (\<lambda>chunk. item_facadeModuleId chunk = Some entryModuleID) g = None"
    by (simp add: find_None_iff)
  then show "dependencyMap_entry fuel g entryModuleID = Some (Inr [])"
    by (simp add: dependencyMap_entry_def)
qed

theorem flatImportList_missing_entry_witness:
  "dependencyMap_entry 0 diamond ''/src/b.js'' = Some (Inr [])"
proof -
  have h: "\<forall>item \<in> set diamond. item_facadeModuleId item \<noteq> Some ''/src/b.js''"
    by (simp add: diamond_def mk_chunk_def)
  with flatImportList_missing_entry[of 0 diamond "''/src/b.js''"] show ?thesis by blast
qed

text \<open>
  C1, as stated, fails on the list \<^verbatim>\<open>flatImportList\<close> returns: a dependency shared by two
  imports is emitted once for each. For the entry \<^verbatim>\<open>a.js\<close> of the example the list is
  \<^verbatim>\<open>e.js, c.js, e.js, d.js, a.js\<close>: the chunk at index 1, \<^verbatim>\<open>c.js\<close>, imports \<^verbatim>\<open>e.js\<close>, which
  appears at index 2.
\<close>

theorem flatImportList_import_at_later_index:
  "flatImportList 3 diamond
     (Some (OutputChunk (mk_chunk ''a.js'' [''c.js'', ''d.js''] (Some ''/src/a.js'')))) =
     Some (Inr [''e.js'', ''c.js'', ''e.js'', ''d.js'', ''a.js'']) \<and>
   [''e.js'', ''c.js'', ''e.js'', ''d.js'', ''a.js''] ! 1 = ''c.js'' \<and>
   [''e.js'', ''c.js'', ''e.js'', ''d.js'', ''a.js''] ! 2 = ''e.js'' \<and>
   (''c.js'', ''e.js'') \<in> import_edges diamond"
proof -
  have "(''c.js'', ''e.js'') \<in> import_edges diamond"
    by (simp add: import_edges_def diamond_def mk_chunk_def)
  then show ?thesis unfolding diamond_run by simp
qed

text \<open>
  C1, amended. For an entry chunk of a well-formed, acyclic chunk graph, \<^verbatim>\<open>flatImportList\<close>
  returns a list, the same at every sufficient recursion depth. In it, every chunk of the
  graph that the element at index \<open>i\<close> imports, directly or transitively, occurs at an index
  below \<open>i\<close>, and the entry's own file name is the last element. After the first-occurrence
  filter that the manifest rewrite applies, the entry's file name is still last and no chunk
  at an index \<open>i\<close> imports, directly or transitively, a chunk at a greater index.
\<close>

theorem flatImportList_topological:
  assumes "chunk_graph g" "acyclic (import_edges g)" "OutputChunk c \<in> set g"
  shows "\<exists>n xs. flatImportList n g (Some (OutputChunk c)) = Some (Inr xs) \<and>
      (\<forall>m r. flatImportList m g (Some (OutputChunk c)) = Some r \<longrightarrow> r = Inr xs) \<and>
      xs \<noteq> [] \<and> last xs = fileName c \<and>
      (\<forall>i < length xs. \<forall>b \<in> item_fileName ` set g.
         (xs ! i, b) \<in> (import_edges g)\<^sup>+ \<longrightarrow> (\<exists>j < i. xs ! j = b)) \<and>
      filter_first_index xs \<noteq> [] \<and> last (filter_first_index xs) = fileName c \<and>
      (\<forall>j < length (filter_first_index xs). \<forall>i < j.
         (filter_first_index xs ! i, filter_first_index xs ! j) \<notin> (import_edges g)\<^sup>+)"
proof -
  let ?E = "import_edges g" and ?R = "item_fileName ` set g"
  have fc: "find (\<lambda>i. item_fileName i = fileName c) g = Some (OutputChunk c)"
    using assms(1,3) by (rule chunk_graph_find)
  have na: "\<And>a b f. (a, b) \<in> ?E \<Longrightarrow> find (\<lambda>i. item_fileName i = b) g \<noteq> Some (OutputAsset f)"
    using assms(1) by (rule chunk_graph_no_asset)
  have "\<exists>n xs. flatImportList n g (Some (OutputChunk c)) = Some (Inr xs)"
  proof (rule flatImportList_returns[OF assms(2) _ fc])
    fix a b f assume "(a, b) \<in> ?E"
    then show "find (\<lambda>i. item_fileName i = b) g \<noteq> Some (OutputAsset f)" by (rule na)
  qed
  then obtain n xs where run: "flatImportList n g (Some (OutputChunk c)) = Some (Inr xs)"
    by blast
  have uniq: "\<forall>m r. flatImportList m g (Some (OutputChunk c)) = Some r \<longrightarrow> r = Inr xs"
    using flatImportList_fuel_unique[OF _ run] by blast
  from flatImportList_props[OF run fc] obtain ys
    where xs: "xs = ys @ [fileName c]"
      and inner: "\<forall>x \<in> set ys. (fileName c, x) \<in> ?E\<^sup>+"
      and present: "\<forall>x \<in> set xs. \<exists>d. find (\<lambda>i. item_fileName i = x) g = Some (OutputChunk d)"
      and df: "deps_first ?E ?R {} xs"
    by blast
  have raw: "\<forall>i < length xs. \<forall>b \<in> ?R. (xs ! i, b) \<in> ?E\<^sup>+ \<longrightarrow> (\<exists>j < i. xs ! j = b)"
    using import_deps_before[OF df] by blast
  let ?zs = "filter_first_index xs"
  have self: "fileName c \<notin> set ys"
  proof
    assume "fileName c \<in> set ys"
    with inner have "(fileName c, fileName c) \<in> ?E\<^sup>+" by blast
    with assms(2) show False by (simp add: acyclic_def)
  qed
  have zs: "?zs = keep_first {} ys @ [fileName c]"
    using self by (simp add: filter_first_index_keep_first xs keep_first_append)
  have dz: "distinct ?zs" by (simp add: filter_first_index_keep_first distinct_keep_first)
  have sz: "set ?zs = set xs" by (simp add: filter_first_index_keep_first set_keep_first)
  have dfz: "deps_first ?E ?R {} ?zs"
    using deps_first_keep_first[OF df] by (simp add: filter_first_index_keep_first)
  have inR: "\<forall>x \<in> set ?zs. x \<in> ?R"
  proof
    fix x assume "x \<in> set ?zs"
    with sz present obtain d where "find (\<lambda>i. item_fileName i = x) g = Some (OutputChunk d)"
      by blast
    from find_name_Some[OF this] show "x \<in> ?R" by force
  qed
  have topo: "\<forall>j < length ?zs. \<forall>i < j. (?zs ! i, ?zs ! j) \<notin> ?E\<^sup>+"
  proof (intro allI impI notI)
    fix j i assume j: "j < length ?zs" and i: "i < j" and p: "(?zs ! i, ?zs ! j) \<in> ?E\<^sup>+"
    have "?zs ! j \<in> ?R" using inR j by simp
    from import_deps_before[OF dfz p this] i j
    obtain k where k: "k < i" "?zs ! k = ?zs ! j" by auto
    then have "k = j" using dz j i by (simp add: nth_eq_iff_index_eq)
    with k(1) i show False by simp
  qed
  have l1: "xs \<noteq> []" "last xs = fileName c" using xs by simp_all
  have l2: "?zs \<noteq> []" "last ?zs = fileName c" using zs by simp_all
  from run uniq l1 raw l2 topo show ?thesis
    by (intro exI[of _ n] exI[of _ xs] conjI) assumption+
qed

theorem flatImportList_topological_witness:
  "chunk_graph diamond \<and> acyclic (import_edges diamond) \<and>
   OutputChunk (mk_chunk ''a.js'' [''c.js'', ''d.js''] (Some ''/src/a.js'')) \<in> set diamond \<and>
   flatImportList 3 diamond
     (Some (OutputChunk (mk_chunk ''a.js'' [''c.js'', ''d.js''] (Some ''/src/a.js'')))) =
     Some (Inr [''e.js'', ''c.js'', ''e.js'', ''d.js'', ''a.js'']) \<and>
   filter_first_index [''e.js'', ''c.js'', ''e.js'', ''d.js'', ''a.js''] =
     [''e.js'', ''c.js'', ''d.js'', ''a.js''] \<and>
   (''e.js'', ''c.js'') \<notin> (import_edges diamond)\<^sup>+ \<and>
   (''e.js'', ''d.js'') \<notin> (import_edges diamond)\<^sup>+ \<and>
   (''c.js'', ''d.js'') \<notin> (import_edges diamond)\<^sup>+ \<and>
   (''e.js'', ''a.js'') \<notin> (import_edges diamond)\<^sup>+ \<and>
   (''c.js'', ''a.js'') \<notin> (import_edges diamond)\<^sup>+ \<and>
   (''d.js'', ''a.js'') \<notin> (import_edges diamond)\<^sup>+"
proof -
  let ?a = "mk_chunk ''a.js'' [''c.js'', ''d.js''] (Some ''/src/a.js'')"
  let ?zs = "[''e.js'', ''c.js'', ''d.js'', ''a.js'']"
  have h: "OutputChunk ?a \<in> set diamond" by (simp add: diamond_def)
  from flatImportList_topological[OF diamond_chunk_graph diamond_acyclic h]
  obtain n xs where r: "flatImportList n diamond (Some (OutputChunk ?a)) = Some (Inr xs)"
      "\<forall>m r. flatImportList m diamond (Some (OutputChunk ?a)) = Some r \<longrightarrow> r = Inr xs"
      "\<forall>j < length (filter_first_index xs). \<forall>i < j.
         (filter_first_index xs ! i, filter_first_index xs ! j) \<notin> (import_edges diamond)\<^sup>+"
    by (elim exE conjE) (rule that)
  from r(2)[rule_format, OF diamond_run]
  have xs: "xs = [''e.js'', ''c.js'', ''e.js'', ''d.js'', ''a.js'']"
    by simp
  from r(3) have t: "\<forall>j < length ?zs. \<forall>i < j. (?zs ! i, ?zs ! j) \<notin> (import_edges diamond)\<^sup>+"
    unfolding xs diamond_filter .
  have p1: "(''e.js'', ''c.js'') \<notin> (import_edges diamond)\<^sup>+"
    using t[rule_format, of 1 0] by simp
  have p2: "(''e.js'', ''d.js'') \<notin> (import_edges diamond)\<^sup>+"
    using t[rule_format, of 2 0] by simp
  have p3: "(''c.js'', ''d.js'') \<notin> (import_edges diamond)\<^sup>+"
    using t[rule_format, of 2 1] by simp
  have p4: "(''e.js'', ''a.js'') \<notin> (import_edges diamond)\<^sup>+"
    using t[rule_format, of 3 0] by simp
  have p5: "(''c.js'', ''a.js'') \<notin> (import_edges diamond)\<^sup>+"
    using t[rule_format, of 3 1] by simp
  have p6: "(''d.js'', ''a.js'') \<notin> (import_edges diamond)\<^sup>+"
    using t[rule_format, of 3 2] by simp
  from diamond_chunk_graph diamond_acyclic h diamond_run diamond_filter p1 p2 p3 p4 p5 p6
  show ?thesis by (intro conjI) assumption+
qed

section \<open>The claims about the manifest rewrite\<close>

lemma rewrite_script_list_result:
  assumes "\<forall>p \<in> set js. dm p \<noteq> None"
  shows "rewrite_script_list dm js = Inr (keep_first {} (concat (map (\<lambda>p. the (dm p)) js)))"
proof -
  have "splice_loop dm (length js) js =
      Inr (concat (map (\<lambda>p. the (dm p)) (take (length js) js)) @ drop (length js) js)"
    using assms by (intro splice_loop_result) simp_all
  then show ?thesis
    by (simp add: rewrite_script_list_def filter_first_index_keep_first)
qed

text \<open>
  C2, as stated, fails on the list \<^verbatim>\<open>flatImportList\<close> returns: for the entry \<^verbatim>\<open>a.js\<close> of the
  example, whose imports \<^verbatim>\<open>c.js\<close> and \<^verbatim>\<open>d.js\<close> share the dependency \<^verbatim>\<open>e.js\<close>, the list holds
  \<^verbatim>\<open>e.js\<close> twice.
\<close>

theorem flatImportList_repeats_shared_dependency:
  "flatImportList 3 diamond
     (Some (OutputChunk (mk_chunk ''a.js'' [''c.js'', ''d.js''] (Some ''/src/a.js'')))) =
     Some (Inr [''e.js'', ''c.js'', ''e.js'', ''d.js'', ''a.js'']) \<and>
   \<not> distinct [''e.js'', ''c.js'', ''e.js'', ''d.js'', ''a.js'']"
  unfolding diamond_run by simp

text \<open>
  C2, amended. The repeats are removed when a script list of the manifest is rewritten. The
  filter \<^verbatim>\<open>arr.indexOf(val) === i\<close> keeps the first occurrence of every name and nothing
  else, so its result has no name twice and the same names as its argument. A script list whose
  paths all have an entry in \<^verbatim>\<open>dependencyMap\<close> is rewritten to the dependency lists of its
  paths, in order, with only the first occurrence of every file name kept: no file name
  occurs twice in it.
\<close>

theorem rewrite_script_list_no_repeats:
  "filter_first_index xs = keep_first {} xs \<and>
   distinct (filter_first_index xs) \<and> set (filter_first_index xs) = set xs \<and>
   ((\<forall>p \<in> set js. dm p \<noteq> None) \<longrightarrow>
      (\<exists>out. rewrite_script_list dm js = Inr out \<and>
         out = keep_first {} (concat (map (\<lambda>p. the (dm p)) js)) \<and>
         distinct out \<and> set out = (\<Union>p \<in> set js. set (the (dm p)))))"
proof (intro conjI impI)
  show "filter_first_index xs = keep_first {} xs" by (rule filter_first_index_keep_first)
  show "distinct (filter_first_index xs)"
    by (simp add: filter_first_index_keep_first distinct_keep_first)
  show "set (filter_first_index xs) = set xs"
    by (simp add: filter_first_index_keep_first set_keep_first)
next
  assume a: "\<forall>p \<in> set js. dm p \<noteq> None"
  let ?out = "keep_first {} (concat (map (\<lambda>p. the (dm p)) js))"
  have "rewrite_script_list dm js = Inr ?out" using a by (rule rewrite_script_list_result)
  moreover have "distinct ?out" by (rule distinct_keep_first)
  moreover have "set ?out = (\<Union>p \<in> set js. set (the (dm p)))"
    by (simp add: set_keep_first)
  ultimately show "\<exists>out. rewrite_script_list dm js = Inr out \<and>
         out = keep_first {} (concat (map (\<lambda>p. the (dm p)) js)) \<and>
         distinct out \<and> set out = (\<Union>p \<in> set js. set (the (dm p)))"
    by blast
qed

theorem rewrite_script_list_no_repeats_witness:
  "rewrite_script_list [''a.js'' \<mapsto> [''e.js'', ''c.js'', ''e.js'', ''d.js'', ''a.js'']] [''a.js''] =
     Inr [''e.js'', ''c.js'', ''d.js'', ''a.js''] \<and>
   distinct [''e.js'', ''c.js'', ''d.js'', ''a.js'']"
proof -
  let ?dm = "[''a.js'' \<mapsto> [''e.js'', ''c.js'', ''e.js'', ''d.js'', ''a.js'']]"
  have h: "\<forall>p \<in> set [''a.js'']. ?dm p \<noteq> None" by simp
  from rewrite_script_list_no_repeats[of xs "[''a.js'']" ?dm] h
  obtain out where o: "rewrite_script_list ?dm [''a.js''] = Inr out"
    "out = keep_first {} (concat (map (\<lambda>p. the (?dm p)) [''a.js'']))" "distinct out"
    by (elim conjE impE exE) (assumption, rule that)
  from o(2) have "out = [''e.js'', ''c.js'', ''d.js'', ''a.js'']" by simp
  with o(1,3) show ?thesis by (intro conjI) simp_all
qed

text \<open>
  C3. For the script list \<open>[A, B]\<close> of four distinct names \<open>x\<close>, \<open>A\<close>, \<open>y\<close>, \<open>B\<close>, where the
  dependency list of \<open>A\<close> is \<open>[x, A]\<close> and that of \<open>B\<close> is \<open>[x, y, B]\<close>, the rewrite gives
  exactly \<open>[x, A, y, B]\<close>.
\<close>

theorem rewrite_script_list_shared:
  assumes "distinct [x, A, y, B]" "dm A = Some [x, A]" "dm B = Some [x, y, B]"
  shows "rewrite_script_list dm [A, B] = Inr [x, A, y, B]"
proof -
  have "\<forall>p \<in> set [A, B]. dm p \<noteq> None" using assms(2,3) by simp
  then have "rewrite_script_list dm [A, B] =
      Inr (keep_first {} (concat (map (\<lambda>p. the (dm p)) [A, B])))"
    by (rule rewrite_script_list_result)
  also have "concat (map (\<lambda>p. the (dm p)) [A, B]) = [x, A, x, y, B]"
    using assms(2,3) by simp
  also have "keep_first {} [x, A, x, y, B] = [x, A, y, B]"
    using assms(1) by auto
  finally show ?thesis .
qed

theorem rewrite_script_list_shared_witness:
  "distinct [''x.js'', ''A.js'', ''y.js'', ''B.js''] \<and>
   [''A.js'' \<mapsto> [''x.js'', ''A.js''], ''B.js'' \<mapsto> [''x.js'', ''y.js'', ''B.js'']] ''A.js'' =
     Some [''x.js'', ''A.js''] \<and>
   [''A.js'' \<mapsto> [''x.js'', ''A.js''], ''B.js'' \<mapsto> [''x.js'', ''y.js'', ''B.js'']] ''B.js'' =
     Some [''x.js'', ''y.js'', ''B.js''] \<and>
   rewrite_script_list
     [''A.js'' \<mapsto> [''x.js'', ''A.js''], ''B.js'' \<mapsto> [''x.js'', ''y.js'', ''B.js'']]
     [''A.js'', ''B.js''] = Inr [''x.js'', ''A.js'', ''y.js'', ''B.js'']"
proof -
  let ?dm = "[''A.js'' \<mapsto> [''x.js'', ''A.js''], ''B.js'' \<mapsto> [''x.js'', ''y.js'', ''B.js'']]"
  have h1: "distinct [''x.js'', ''A.js'', ''y.js'', ''B.js'']" by simp
  have h2: "?dm ''A.js'' = Some [''x.js'', ''A.js'']" by simp
  have h3: "?dm ''B.js'' = Some [''x.js'', ''y.js'', ''B.js'']" by simp
  from rewrite_script_list_shared[OF h1 h2 h3] h1 h2 h3 show ?thesis
    by (intro conjI) assumption+
qed

section \<open>The rewritten script list loads dependencies first\<close>

lemma distinct_deps_first_order:
  assumes df: "deps_first (import_edges g) (item_fileName ` set g) {} zs"
    and d: "distinct zs" and R: "set zs \<subseteq> item_fileName ` set g"
  shows "\<forall>j < length zs. \<forall>i < j. (zs ! i, zs ! j) \<notin> (import_edges g)\<^sup>+"
proof (intro allI impI notI)
  fix j i assume j: "j < length zs" and i: "i < j" and p: "(zs ! i, zs ! j) \<in> (import_edges g)\<^sup>+"
  have "zs ! j \<in> item_fileName ` set g" using R j by auto
  from import_deps_before[OF df p this] i j
  obtain k where k: "k < i" "zs ! k = zs ! j" by auto
  then have "k = j" using d j i by (simp add: nth_eq_iff_index_eq)
  with k(1) i show False by simp
qed

lemma dependencyMap_entry_props:
  assumes g: "distinct (map item_fileName g)"
    and r: "dependencyMap_entry n g m = Some (Inr xs)"
  shows "deps_first (import_edges g) (item_fileName ` set g) {} xs \<and>
    set xs \<subseteq> item_fileName ` set g"
proof (cases "find (\<lambda>chunk. item_facadeModuleId chunk = Some m) g")
  case None
  with r show ?thesis by (simp add: dependencyMap_entry_def)
next
  case (Some item)
  then have mem: "item \<in> set g" by (auto simp: find_Some_iff)
  show ?thesis
  proof (cases item)
    case (OutputAsset f)
    with Some r show ?thesis by (simp add: dependencyMap_entry_def)
  next
    case (OutputChunk c)
    have fc: "find (\<lambda>i. item_fileName i = fileName c) g = Some (OutputChunk c)"
      using find_name_distinct[OF g mem] OutputChunk by simp
    have run: "flatImportList n g (Some (OutputChunk c)) = Some (Inr xs)"
      using r Some OutputChunk by (simp add: dependencyMap_entry_def)
    from flatImportList_props[OF run fc]
    have df: "deps_first (import_edges g) (item_fileName ` set g) {} xs"
      and pr: "\<forall>x \<in> set xs. \<exists>d. find (\<lambda>i. item_fileName i = x) g = Some (OutputChunk d)"
      by blast+
    have "set xs \<subseteq> item_fileName ` set g"
    proof
      fix x assume "x \<in> set xs"
      with pr obtain d where "find (\<lambda>i. item_fileName i = x) g = Some (OutputChunk d)" by blast
      from find_name_Some[OF this] show "x \<in> item_fileName ` set g" by force
    qed
    with df show ?thesis by blast
  qed
qed

text \<open>
  The two halves together: when every path of a script list is mapped to the list
  \<^verbatim>\<open>flatImportList\<close> returned for its entry, the rewritten script list has no file name twice
  and loads no chunk before a chunk it imports, directly or transitively.
\<close>

theorem rewrite_script_list_dependencies_first:
  assumes g: "distinct (map item_fileName g)"
    and dm: "\<forall>p \<in> set js. \<exists>n m xs. dependencyMap p = Some xs \<and>
        dependencyMap_entry n g m = Some (Inr xs)"
  shows "\<exists>out. rewrite_script_list dependencyMap js = Inr out \<and> distinct out \<and>
    (\<forall>j < length out. \<forall>i < j. (out ! i, out ! j) \<notin> (import_edges g)\<^sup>+)"
proof -
  let ?E = "import_edges g" and ?R = "item_fileName ` set g"
  let ?xss = "map (\<lambda>p. the (dependencyMap p)) js"
  let ?out = "keep_first {} (concat ?xss)"
  have each: "deps_first ?E ?R {} xs \<and> set xs \<subseteq> ?R" if "xs \<in> set ?xss" for xs
  proof -
    from that obtain p where p: "p \<in> set js" "xs = the (dependencyMap p)" by auto
    with dm obtain n m where "dependencyMap_entry n g m = Some (Inr xs)" by force
    from dependencyMap_entry_props[OF g this] show ?thesis .
  qed
  have "\<forall>p \<in> set js. dependencyMap p \<noteq> None" using dm by force
  then have run: "rewrite_script_list dependencyMap js = Inr ?out"
    by (rule rewrite_script_list_result)
  have "deps_first ?E ?R {} (concat ?xss)"
    using each by (intro deps_first_concat) blast
  then have df: "deps_first ?E ?R {} ?out" by (rule deps_first_keep_first)
  have d: "distinct ?out" by (rule distinct_keep_first)
  have "set ?out \<subseteq> ?R"
  proof
    fix x assume "x \<in> set ?out"
    then obtain xs where "xs \<in> set ?xss" "x \<in> set xs" by (auto simp: set_keep_first)
    with each show "x \<in> ?R" by blast
  qed
  from distinct_deps_first_order[OF df d this] run d show ?thesis by blast
qed

section \<open>The claims about the rewritten code\<close>



lemma exportArgument_creates:
  assumes "this_props s n = None \<or> (\<exists>v. this_props s n = Some v \<and> \<not> truthy v)"
  shows "eval_expr (exportArgumentTemplate n) s =
    (Object (next_object s),
     s\<lparr>next_object := Suc (next_object s), this_props := (this_props s)(n \<mapsto> Object (next_object s))\<rparr>)"
  using assms by (auto simp: exportArgumentTemplate_def)





text \<open>
  C8 fails on the code. For a chunk \<^verbatim>\<open>a.js\<close> whose IIFE build returns two outputs, the build
  does abort, but with the \<^verbatim>\<open>ReferenceError\<close> of the unbound \<^verbatim>\<open>chunkId\<close>: the message names
  neither the chunk nor the number of outputs, and is the same for a chunk \<^verbatim>\<open>b.js\<close>.
\<close>

theorem store_iife_output_two_outputs:
  "store_iife_output Map.empty (mk_chunk ''a.js'' [] None)
     [OutputChunk (mk_chunk ''a.js'' [] None), OutputAsset ''logo.png''] =
   Inl (ReferenceError ''chunkId is not defined'') \<and>
   store_iife_output Map.empty (mk_chunk ''b.js'' [] None)
     [OutputChunk (mk_chunk ''b.js'' [] None), OutputAsset ''logo.png''] =
   Inl (ReferenceError ''chunkId is not defined'')"
  by (simp add: store_iife_output_def)

end
